theory Spec2Isabelle
  imports Complex_Main "HOL-Library.AList"
begin

section \<open>The event sequence\<close>

text \<open>
  The analyses of \<^verbatim>\<open>WhatsAppAnalyzer\<close> read the rows of the data frame \<^verbatim>\<open>self.df\<close>
  in file order. A \<open>row\<close> is the dictionary the parsing loop appends to \<^verbatim>\<open>data\<close>
  (the four captured strings). An \<open>event\<close> is a row of the finished frame: the same
  four columns and the column \<^verbatim>\<open>datetime\<close> that pandas computes from them, kept as the
  number of seconds since an arbitrary origin (the parser produces whole minutes; the
  analyses themselves work on any timestamp). The column \<^verbatim>\<open>date_only\<close> is the
  calendar day of the timestamp.

  Python computes the latencies as floating-point numbers
  (\<^verbatim>\<open>total_seconds() / 60\<close>); every float is a rational number, and the model keeps
  the exact quotient in \<^typ>\<open>rat\<close>.
\<close>

datatype py_error = IndexError | KeyError | ValueError

record row =
  date :: string
  time :: string
  author :: string
  message :: string

record event = row +
  datetime :: int

text \<open>An event with the given author and timestamp, the other columns empty.\<close>

definition mk_event :: "string \<Rightarrow> int \<Rightarrow> event" where
  "mk_event a t = \<lparr>date = [], time = [], author = a, message = [], datetime = t\<rparr>"

definition date_only :: "event \<Rightarrow> int" where
  "date_only e = datetime e div 86400"

text \<open>\<^verbatim>\<open>(df.iloc[i]['datetime'] - df.iloc[i-1]['datetime']).total_seconds() / 60\<close>\<close>

definition minutes_between :: "event \<Rightarrow> event \<Rightarrow> rat" where
  "minutes_between prev cur = of_int (datetime cur - datetime prev) / 60"

text \<open>
  Every scan \<^verbatim>\<open>for i in range(1, len(self.df))\<close> reads the pair
  \<^verbatim>\<open>(df.iloc[i-1], df.iloc[i])\<close>; \<open>transitions\<close> lists these pairs in order.
\<close>

definition transitions :: "'a list \<Rightarrow> ('a \<times> 'a) list" where
  "transitions es = zip es (tl es)"

section \<open>Conversation bursts and reply chains\<close>

text \<open>
  \<^verbatim>\<open>conversation_length_analysis\<close>: the loop state is the list \<^verbatim>\<open>bursts\<close> and the
  counter \<^verbatim>\<open>current_burst\<close>. The function returns the list the report is computed from;
  nothing follows the loop but the report.
\<close>

definition burst_step :: "nat list \<times> nat \<Rightarrow> event \<times> event \<Rightarrow> nat list \<times> nat" where
  "burst_step st pc =
     (case st of (bursts, current_burst) \<Rightarrow>
      case pc of (prev, cur) \<Rightarrow>
        if minutes_between prev cur < 5 then (bursts, current_burst + 1)
        else ((if current_burst > 1 then bursts @ [current_burst] else bursts), 1))"

definition burst_scan :: "event list \<Rightarrow> nat list \<times> nat" where
  "burst_scan es = foldl burst_step ([], 1) (transitions es)"

definition conversation_length_analysis :: "event list \<Rightarrow> nat list" where
  "conversation_length_analysis es = fst (burst_scan es)"

text \<open>\<^verbatim>\<open>reply_chain_depth\<close>: the same scan with a 2 minute threshold and the filter \<open>> 2\<close>.\<close>

definition chain_step :: "nat list \<times> nat \<Rightarrow> event \<times> event \<Rightarrow> nat list \<times> nat" where
  "chain_step st pc =
     (case st of (chain_lengths, current_chain) \<Rightarrow>
      case pc of (prev, cur) \<Rightarrow>
        if minutes_between prev cur < 2 then (chain_lengths, current_chain + 1)
        else ((if current_chain > 2 then chain_lengths @ [current_chain] else chain_lengths), 1))"

definition chain_scan :: "event list \<Rightarrow> nat list \<times> nat" where
  "chain_scan es = foldl chain_step ([], 1) (transitions es)"

definition reply_chain_depth :: "event list \<Rightarrow> nat list" where
  "reply_chain_depth es = fst (chain_scan es)"

section \<open>Monologues\<close>

text \<open>
  \<^verbatim>\<open>monologue_detection\<close> reads \<^verbatim>\<open>self.df.iloc[0]\<close> before the loop, which raises
  \<^verbatim>\<open>IndexError\<close> on an empty frame. The loop state is the list of monologues found,
  \<^verbatim>\<open>current_author\<close>, \<^verbatim>\<open>current_count\<close> and \<^verbatim>\<open>start_idx\<close>; the loop visits the
  indices \<open>1, \<dots>, n - 1\<close> with their rows. After the loop the list is sorted by count,
  largest first (Python's sort is stable), and the first ten are printed.
\<close>

record monologue =
  mono_author :: string
  mono_count :: nat
  mono_start_time :: int

type_synonym mono_state = "monologue list \<times> string \<times> nat \<times> nat"

definition monologue_step :: "event list \<Rightarrow> mono_state \<Rightarrow> nat \<times> event \<Rightarrow> mono_state" where
  "monologue_step df st ie =
     (case st of (monologues, current_author, current_count, start_idx) \<Rightarrow>
      case ie of (i, row) \<Rightarrow>
        if author row = current_author then (monologues, current_author, current_count + 1, start_idx)
        else ((if current_count \<ge> 5
               then monologues @ [\<lparr>mono_author = current_author, mono_count = current_count,
                                   mono_start_time = datetime (df ! start_idx)\<rparr>]
               else monologues),
              author row, 1, i))"

definition monologue_scan :: "event list \<Rightarrow> mono_state" where
  "monologue_scan df =
     foldl (monologue_step df) ([], author (df ! 0), 1, 0) (zip [1..<length df] (tl df))"

definition monologue_detection :: "event list \<Rightarrow> py_error + monologue list" where
  "monologue_detection df =
     (if df = [] then Inl IndexError
      else Inr (sort_key (\<lambda>m. - int (mono_count m)) (fst (monologue_scan df))))"

section \<open>Day streak\<close>

text \<open>
  \<^verbatim>\<open>self.df['date_only'].unique()\<close> keeps the first occurrence of every value, in
  order of appearance.
\<close>

definition unique :: "'a list \<Rightarrow> 'a list" where
  "unique xs = foldl (\<lambda>acc x. if x \<in> set acc then acc else acc @ [x]) [] xs"

text \<open>
  \<^verbatim>\<open>streak_analysis\<close>: \<^verbatim>\<open>dates[0]\<close> raises \<^verbatim>\<open>IndexError\<close> on an empty list
  of dates. The loop state is \<^verbatim>\<open>(current_streak, max_streak, streak_end)\<close>; the report
  prints \<^verbatim>\<open>max_streak\<close> and \<^verbatim>\<open>streak_end\<close>.
\<close>

type_synonym streak_state = "nat \<times> nat \<times> int"

definition streak_step :: "streak_state \<Rightarrow> int \<times> int \<Rightarrow> streak_state" where
  "streak_step st dd =
     (case st of (current_streak, max_streak, streak_end) \<Rightarrow>
      case dd of (dprev, dcur) \<Rightarrow>
        if dcur - dprev = 1
        then (if current_streak + 1 > max_streak
              then (current_streak + 1, current_streak + 1, dcur)
              else (current_streak + 1, max_streak, streak_end))
        else (1, max_streak, streak_end))"

definition streak_loop :: "int list \<Rightarrow> streak_state" where
  "streak_loop dates = foldl streak_step (1, 1, dates ! 0) (transitions dates)"

definition streak_scan :: "int list \<Rightarrow> py_error + nat \<times> int" where
  "streak_scan dates = (if dates = [] then Inl IndexError else Inr (snd (streak_loop dates)))"

definition streak_analysis :: "event list \<Rightarrow> py_error + nat \<times> int" where
  "streak_analysis df = streak_scan (sort (unique (map date_only df)))"

section \<open>Interaction edges\<close>

text \<open>
  \<^verbatim>\<open>author_interaction_matrix\<close> collects the pairs in \<^verbatim>\<open>interactions\<close> and reports
  \<^verbatim>\<open>Counter(interactions).most_common(15)\<close>. A \<^verbatim>\<open>Counter\<close> is a dictionary in
  insertion order; \<^verbatim>\<open>most_common\<close> sorts it by count, largest first, with a stable
  sort.
\<close>

definition interaction_step ::
  "(string \<times> string) list \<Rightarrow> event \<times> event \<Rightarrow> (string \<times> string) list" where
  "interaction_step interactions pc =
     (case pc of (prev, cur) \<Rightarrow>
        if author cur \<noteq> author prev
        then (if minutes_between prev cur < 10
              then interactions @ [(author prev, author cur)] else interactions)
        else interactions)"

definition interactions :: "event list \<Rightarrow> (string \<times> string) list" where
  "interactions df = foldl interaction_step [] (transitions df)"

definition counter_add :: "('a \<times> nat) list \<Rightarrow> 'a \<Rightarrow> ('a \<times> nat) list" where
  "counter_add c x =
     (case map_of c x of None \<Rightarrow> c @ [(x, 1)] | Some n \<Rightarrow> AList.update x (n + 1) c)"

definition Counter :: "'a list \<Rightarrow> ('a \<times> nat) list" where
  "Counter xs = foldl counter_add [] xs"

definition most_common :: "nat \<Rightarrow> ('a \<times> nat) list \<Rightarrow> ('a \<times> nat) list" where
  "most_common n c = take n (sort_key (\<lambda>kv. - int (snd kv)) c)"

definition author_interaction_matrix :: "event list \<Rightarrow> ((string \<times> string) \<times> nat) list" where
  "author_interaction_matrix df =
     (if interactions df \<noteq> [] then most_common 15 (Counter (interactions df)) else [])"

section \<open>Response time\<close>

text \<open>
  \<^verbatim>\<open>response_time_analysis\<close> prints the mean and
  \<^verbatim>\<open>sorted(response_times)[len(response_times)//2]\<close> when the sample is not empty, and
  a notice otherwise (\<open>None\<close>).
\<close>

definition response_time_step :: "rat list \<Rightarrow> event \<times> event \<Rightarrow> rat list" where
  "response_time_step response_times pc =
     (case pc of (prev, cur) \<Rightarrow>
        if author cur \<noteq> author prev
        then (if minutes_between prev cur < 60
              then response_times @ [minutes_between prev cur] else response_times)
        else response_times)"

definition response_times :: "event list \<Rightarrow> rat list" where
  "response_times df = foldl response_time_step [] (transitions df)"

definition response_time_analysis :: "event list \<Rightarrow> (rat \<times> rat) option" where
  "response_time_analysis df =
     (let rt = response_times df in
      if rt \<noteq> [] then Some (sum_list rt / of_nat (length rt), sort rt ! (length rt div 2))
      else None)"

section \<open>Response rate\<close>

text \<open>
  \<^verbatim>\<open>author_response_rate\<close> keeps two dictionaries keyed by author, both initialised to
  0 for every author of the frame. A dictionary is an association list in insertion order;
  reading a missing key raises \<^verbatim>\<open>KeyError\<close>. The loop visits every row with its
  predecessor (none for the first row).
\<close>

type_synonym 'v dict = "(string \<times> 'v) list"

fun fold_err :: "('s \<Rightarrow> 'x \<Rightarrow> py_error + 's) \<Rightarrow> 'x list \<Rightarrow> 's \<Rightarrow> py_error + 's" where
  "fold_err f [] s = Inr s"
| "fold_err f (x # xs) s = (case f s x of Inl e \<Rightarrow> Inl e | Inr s' \<Rightarrow> fold_err f xs s')"

definition rate_step ::
  "nat dict \<times> nat dict \<Rightarrow> event option \<times> event \<Rightarrow> py_error + nat dict \<times> nat dict" where
  "rate_step st pc =
     (case st of (author_messages, author_responses) \<Rightarrow>
      case pc of (prev, cur) \<Rightarrow>
      case map_of author_messages (author cur) of
        None \<Rightarrow> Inl KeyError
      | Some m \<Rightarrow>
          let author_messages' = AList.update (author cur) (m + 1) author_messages in
          if (case prev of None \<Rightarrow> False | Some p \<Rightarrow> author cur \<noteq> author p)
          then (if minutes_between (the prev) cur < 15
                then (case map_of author_responses (author cur) of
                        None \<Rightarrow> Inl KeyError
                      | Some r \<Rightarrow>
                          Inr (author_messages', AList.update (author cur) (r + 1) author_responses))
                else Inr (author_messages', author_responses))
          else Inr (author_messages', author_responses))"

definition response_counts :: "event list \<Rightarrow> py_error + nat dict \<times> nat dict" where
  "response_counts df =
     fold_err rate_step (zip (None # map Some df) df)
       (map (\<lambda>a. (a, 0)) (unique (map author df)), map (\<lambda>a. (a, 0)) (unique (map author df)))"

text \<open>
  The report: the first 15 authors by message count, largest first (a stable sort of the
  dictionary's keys), each with \<^verbatim>\<open>author_responses[author] / author_messages[author] * 100\<close>
  if the author has a message.
\<close>

fun rate_rows :: "nat dict \<Rightarrow> nat dict \<Rightarrow> py_error + (string \<times> rat \<times> nat) list" where
  "rate_rows author_responses [] = Inr []"
| "rate_rows author_responses ((a, m) # kvs) =
     (if m > 0
      then (case map_of author_responses a of
              None \<Rightarrow> Inl KeyError
            | Some r \<Rightarrow>
                (case rate_rows author_responses kvs of
                   Inl e \<Rightarrow> Inl e
                 | Inr rows \<Rightarrow> Inr ((a, of_nat r / of_nat m * 100, m) # rows)))
      else rate_rows author_responses kvs)"

definition author_response_rate :: "event list \<Rightarrow> py_error + (string \<times> rat \<times> nat) list" where
  "author_response_rate df =
     (case response_counts df of
        Inl e \<Rightarrow> Inl e
      | Inr (author_messages, author_responses) \<Rightarrow>
          rate_rows author_responses (take 15 (sort_key (\<lambda>kv. - int (snd kv)) author_messages)))"

section \<open>Reply speed\<close>

text \<open>
  \<^verbatim>\<open>reply_speed_by_author\<close>: \<^verbatim>\<open>reply_times\<close> maps every author of the frame to a
  list of latencies; \<^verbatim>\<open>avg_reply\<close> is the list comprehension over its items; it is then
  sorted by the mean and the first 15 entries are printed.
\<close>

definition reply_step :: "rat list dict \<Rightarrow> event \<times> event \<Rightarrow> py_error + rat list dict" where
  "reply_step reply_times pc =
     (case pc of (prev, cur) \<Rightarrow>
        if author cur \<noteq> author prev
        then (if minutes_between prev cur < 60
              then (case map_of reply_times (author cur) of
                      None \<Rightarrow> Inl KeyError
                    | Some ts \<Rightarrow>
                        Inr (AList.update (author cur) (ts @ [minutes_between prev cur]) reply_times))
              else Inr reply_times)
        else Inr reply_times)"

definition reply_times :: "event list \<Rightarrow> py_error + rat list dict" where
  "reply_times df =
     fold_err reply_step (transitions df) (map (\<lambda>a. (a, [])) (unique (map author df)))"

definition avg_reply_of :: "rat list dict \<Rightarrow> (string \<times> rat) list" where
  "avg_reply_of rt =
     map (\<lambda>(a, ts). (a, sum_list ts / of_nat (length ts)))
       (filter (\<lambda>(a, ts). length ts > 5) rt)"

definition avg_reply :: "event list \<Rightarrow> py_error + (string \<times> rat) list" where
  "avg_reply df = (case reply_times df of Inl e \<Rightarrow> Inl e | Inr rt \<Rightarrow> Inr (avg_reply_of rt))"

definition reply_speed_by_author :: "event list \<Rightarrow> py_error + (string \<times> rat) list" where
  "reply_speed_by_author df =
     (case avg_reply df of Inl e \<Rightarrow> Inl e | Inr ar \<Rightarrow> Inr (take 15 (sort_key snd ar)))"

section \<open>Parsing\<close>

text \<open>
  A Python string is a list of characters. The model covers the code points below 256,
  one \<^typ>\<open>char\<close> each. On these, \<^verbatim>\<open>str.strip()\<close> and the class \<^verbatim>\<open>\\s\<close> of
  \<^verbatim>\<open>re\<close> take the same twelve characters for white space, and \<^verbatim>\<open>\\d\<close> takes the
  ten digits.
\<close>

definition whitespace_chars :: string where
  "whitespace_chars =
     [CHR 0x09, CHR 0x0A, CHR 0x0B, CHR 0x0C, CHR 0x0D, CHR 0x1C, CHR 0x1D, CHR 0x1E,
      CHR 0x1F, CHR 0x20, CHR 0x85, CHR 0xA0]"

definition isspace :: "char \<Rightarrow> bool" where
  "isspace c \<longleftrightarrow> c \<in> set whitespace_chars"

definition isdigit :: "char \<Rightarrow> bool" where
  "isdigit c \<longleftrightarrow> c \<in> set ''0123456789''"

definition strip :: "string \<Rightarrow> string" where
  "strip s = rev (dropWhile isspace (rev (dropWhile isspace s)))"

text \<open>
  The fragment of regular expressions that \<^verbatim>\<open>pattern\<close> uses: a pattern is a sequence
  of items, each a character class matched once, a character class under the greedy
  \<^verbatim>\<open>+\<close>, or a parenthesis of a capture group (the groups are not nested).
\<close>

datatype cclass = Digit | Space | Lit char | Not_Lit char | Dot

fun accepts :: "cclass \<Rightarrow> char \<Rightarrow> bool" where
  "accepts Digit c = isdigit c"
| "accepts Space c = isspace c"
| "accepts (Lit l) c = (c = l)"
| "accepts (Not_Lit l) c = (c \<noteq> l)"
| "accepts Dot c = (c \<noteq> CHR 0x0A)"

datatype item = One cclass | Plus cclass | Group_Open | Group_Close

fun first_some :: "'a option list \<Rightarrow> 'a option" where
  "first_some [] = None"
| "first_some (None # xs) = first_some xs"
| "first_some (Some x # xs) = Some x"

text \<open>
  \<^verbatim>\<open>re.match\<close>: the pattern is matched at the start of the string and need not reach
  its end. \<open>gs\<close> are the groups closed so far and \<open>cur\<close> the text of the open group.
  The greedy \<^verbatim>\<open>+\<close> first takes the longest run of accepted characters and gives
  characters back one at a time, down to one, until the rest of the pattern matches.
\<close>

fun re_match :: "item list \<Rightarrow> string \<Rightarrow> string list \<Rightarrow> string option \<Rightarrow> string list option" where
  "re_match [] s gs cur = Some gs"
| "re_match (Group_Open # p) s gs cur = re_match p s gs (Some [])"
| "re_match (Group_Close # p) s gs cur =
     re_match p s (gs @ [case cur of None \<Rightarrow> [] | Some g \<Rightarrow> g]) None"
| "re_match (One c # p) s gs cur =
     (case s of
        [] \<Rightarrow> None
      | x # xs \<Rightarrow>
          if accepts c x then re_match p xs gs (map_option (\<lambda>g. g @ [x]) cur) else None)"
| "re_match (Plus c # p) s gs cur =
     first_some
       (map (\<lambda>k. re_match p (drop k s) gs (map_option (\<lambda>g. g @ take k s) cur))
          (rev [1..<Suc (length (takeWhile (accepts c) s))]))"

text \<open>\<^verbatim>\<open>(\\d{2}/\\d{2}/\\d{4}),\\s(\\d{2}:\\d{2})\\s-\\s([^:]+):\\s(.+)\<close>\<close>

definition pattern :: "item list" where
  "pattern =
     [Group_Open, One Digit, One Digit, One (Lit CHR ''/''), One Digit, One Digit,
      One (Lit CHR ''/''), One Digit, One Digit, One Digit, One Digit, Group_Close,
      One (Lit CHR '',''), One Space,
      Group_Open, One Digit, One Digit, One (Lit CHR '':''), One Digit, One Digit, Group_Close,
      One Space, One (Lit CHR ''-''), One Space,
      Group_Open, Plus (Not_Lit CHR '':''), Group_Close,
      One (Lit CHR '':''), One Space,
      Group_Open, Plus Dot, Group_Close]"

text \<open>
  The body of the loop of \<^verbatim>\<open>parse_chat\<close> for one line: the row appended to
  \<^verbatim>\<open>data\<close>, or nothing. \<^verbatim>\<open>match.groups()\<close> is unpacked into four names, which
  raises \<^verbatim>\<open>ValueError\<close> for any other number of groups.
\<close>

definition parse_line :: "string \<Rightarrow> py_error + row option" where
  "parse_line line =
     (case re_match pattern (strip line) [] None of
        None \<Rightarrow> Inr None
      | Some groups \<Rightarrow>
          (case groups of
             [d, t, a, m] \<Rightarrow>
               Inr (Some \<lparr>date = d, time = t, author = strip a, message = strip m\<rparr>)
           | _ \<Rightarrow> Inl ValueError))"

text \<open>
  The file is opened in text mode: \<^verbatim>\<open>\\r\\n\<close> and \<^verbatim>\<open>\\r\<close> are read as
  \<^verbatim>\<open>\\n\<close>, and iterating over the file yields the lines, each with its final
  \<^verbatim>\<open>\\n\<close> (the last line may have none).
\<close>

fun universal_newlines :: "string \<Rightarrow> string" where
  "universal_newlines [] = []"
| "universal_newlines (c # cs) =
     (if c = CHR 0x0D
      then (case cs of
              [] \<Rightarrow> [CHR 0x0A]
            | d # ds \<Rightarrow> if d = CHR 0x0A then CHR 0x0A # universal_newlines ds
                        else CHR 0x0A # universal_newlines cs)
      else c # universal_newlines cs)"

fun split_lines :: "string \<Rightarrow> string \<Rightarrow> string list" where
  "split_lines acc [] = (if acc = [] then [] else [acc])"
| "split_lines acc (c # cs) =
     (if c = CHR 0x0A then (acc @ [c]) # split_lines [] cs else split_lines (acc @ [c]) cs)"

definition file_lines :: "string \<Rightarrow> string list" where
  "file_lines content = split_lines [] (universal_newlines content)"

text \<open>The loop over the lines: \<^verbatim>\<open>data\<close> after the loop, or the error that ended it.\<close>

fun parse_lines :: "string list \<Rightarrow> py_error + row list" where
  "parse_lines [] = Inr []"
| "parse_lines (l # ls) =
     (case parse_line l of
        Inl e \<Rightarrow> Inl e
      | Inr None \<Rightarrow> parse_lines ls
      | Inr (Some r) \<Rightarrow> (case parse_lines ls of Inl e \<Rightarrow> Inl e | Inr rs \<Rightarrow> Inr (r # rs)))"

text \<open>
  After the loop, \<^verbatim>\<open>pd.DataFrame(data)\<close> has the columns of the rows, and none when
  \<^verbatim>\<open>data\<close> is empty: \<^verbatim>\<open>self.df['date']\<close> then raises \<^verbatim>\<open>KeyError\<close>.
  \<^verbatim>\<open>pd.to_datetime\<close> reads \<^verbatim>\<open>date + ' ' + time\<close> of every row in the format
  \<^verbatim>\<open>%d/%m/%Y %H:%M\<close> and raises \<^verbatim>\<open>ValueError\<close> when one of them is not a date of
  the calendar with an hour below 24 and a minute below 60, or when the date does not fit
  a timestamp of nanosecond resolution in 64 bits (\<^verbatim>\<open>OutOfBoundsDatetime\<close>, a
  \<^verbatim>\<open>ValueError\<close>). The strings are those captured by \<^verbatim>\<open>pattern\<close>: two digits for
  the day, the month, the hour and the minute and four for the year, at fixed positions.
  The timestamp is kept in seconds since 1970-01-01 00:00; the number of days since
  that date is counted in the proleptic Gregorian calendar.
\<close>

definition digit_val :: "char \<Rightarrow> nat" where
  "digit_val c = of_char c - 48"

definition int_of_digits :: "string \<Rightarrow> nat" where
  "int_of_digits s = foldl (\<lambda>n c. 10 * n + digit_val c) 0 s"

definition is_leap :: "nat \<Rightarrow> bool" where
  "is_leap y \<longleftrightarrow> y mod 4 = 0 \<and> (y mod 100 \<noteq> 0 \<or> y mod 400 = 0)"

definition days_in_month :: "nat \<Rightarrow> nat \<Rightarrow> nat" where
  "days_in_month y m =
     (if m = 2 then (if is_leap y then 29 else 28)
      else if m = 4 \<or> m = 6 \<or> m = 9 \<or> m = 11 then 30 else 31)"

definition days_from_civil :: "int \<Rightarrow> int \<Rightarrow> int \<Rightarrow> int" where
  "days_from_civil y m d =
     (let y' = (if m \<le> 2 then y - 1 else y);
          era = y' div 400;
          yoe = y' - era * 400;
          doy = (153 * ((m + 9) mod 12) + 2) div 5 + d - 1;
          doe = yoe * 365 + yoe div 4 - yoe div 100 + doy
      in era * 146097 + doe - 719468)"

definition to_datetime :: "string \<Rightarrow> string \<Rightarrow> py_error + int" where
  "to_datetime d t =
     (let day = int_of_digits (take 2 d);
          month = int_of_digits (take 2 (drop 3 d));
          year = int_of_digits (take 4 (drop 6 d));
          hour = int_of_digits (take 2 t);
          minute = int_of_digits (take 2 (drop 3 t));
          seconds = days_from_civil (int year) (int month) (int day) * 86400
                      + int hour * 3600 + int minute * 60
      in if 1 \<le> month \<and> month \<le> 12 \<and> 1 \<le> day \<and> day \<le> days_in_month year month
            \<and> hour < 24 \<and> minute < 60
            \<and> - (2 ^ 63) < seconds * 1000000000 \<and> seconds * 1000000000 < 2 ^ 63
         then Inr seconds else Inl ValueError)"

fun to_events :: "row list \<Rightarrow> py_error + event list" where
  "to_events [] = Inr []"
| "to_events (r # rs) =
     (case to_datetime (date r) (time r) of
        Inl e \<Rightarrow> Inl e
      | Inr t \<Rightarrow>
          (case to_events rs of
             Inl e \<Rightarrow> Inl e
           | Inr es \<Rightarrow>
               Inr (\<lparr>date = date r, time = time r, author = author r, message = message r,
                      datetime = t\<rparr> # es)))"

text \<open>\<^verbatim>\<open>parse_chat\<close>, from the text of the file to the rows of \<^verbatim>\<open>self.df\<close>.\<close>

definition parse_chat :: "string \<Rightarrow> py_error + event list" where
  "parse_chat content =
     (case parse_lines (file_lines content) of
        Inl e \<Rightarrow> Inl e
      | Inr data \<Rightarrow> if data = [] then Inl KeyError else to_events data)"

section \<open>Speaker changes\<close>

text \<open>
  The vocabulary of the interaction statistics, in the words of the specification: the
  positions \<open>i\<close> of the sequence where the speaker changed
  (\<open>author[i] \<noteq> author[i-1]\<close>), and the latency in minutes of the transition at \<open>i\<close>.
\<close>

definition speaker_changes :: "event list \<Rightarrow> nat list" where
  "speaker_changes df = filter (\<lambda>i. author (df ! i) \<noteq> author (df ! (i - 1))) [1..<length df]"

definition latency :: "event list \<Rightarrow> nat \<Rightarrow> rat" where
  "latency df i = minutes_between (df ! (i - 1)) (df ! i)"

section \<open>Streaks of a set of dates\<close>

text \<open>
  In the words of the specification: a streak is a span of consecutive calendar dates each
  having at least one event. \<open>is_streak S k e\<close> says that the \<open>k\<close> consecutive dates
  ending at \<open>e\<close> all belong to the set \<open>S\<close>.
\<close>

definition is_streak :: "int set \<Rightarrow> nat \<Rightarrow> int \<Rightarrow> bool" where
  "is_streak S k e \<longleftrightarrow> 1 \<le> k \<and> (\<forall>j<k. e - int j \<in> S)"

text \<open>
  The invariant of the loop of \<^verbatim>\<open>streak_analysis\<close> after the dates \<open>S\<close>, the last of
  them \<open>l\<close>: \<open>current_streak\<close> is the length of the streak that ends at \<open>l\<close>, and
  \<open>max_streak\<close> and \<open>streak_end\<close> are the length of the longest streak of \<open>S\<close> and the
  end of the earliest streak of that length.
\<close>

definition streak_inv :: "int set \<Rightarrow> int \<Rightarrow> streak_state \<Rightarrow> bool" where
  "streak_inv S l st \<longleftrightarrow>
     (case st of (c, m, e) \<Rightarrow>
        is_streak S c l \<and> l - int c \<notin> S \<and> c \<le> m \<and> is_streak S m e
        \<and> (\<forall>k e'. is_streak S k e' \<longrightarrow> k \<le> m)
        \<and> (\<forall>e'. is_streak S m e' \<longrightarrow> e \<le> e'))"

section \<open>Messages and responses of an author\<close>

text \<open>
  In the words of the specification: the messages of an author are the events of that
  author; an event is a response of its author when it stands at a speaker change whose
  latency is strictly under 15 minutes. \<open>is_response\<close> is the test that the loop of
  \<^verbatim>\<open>author_response_rate\<close> makes on a row and its predecessor.
\<close>

definition messages_of :: "event list \<Rightarrow> string \<Rightarrow> nat" where
  "messages_of df a = length (filter (\<lambda>e. author e = a) df)"

definition responses_of :: "event list \<Rightarrow> string \<Rightarrow> nat" where
  "responses_of df a =
     length (filter (\<lambda>i. author (df ! i) = a \<and> latency df i < 15) (speaker_changes df))"

definition is_response :: "event option \<times> event \<Rightarrow> bool" where
  "is_response pc \<longleftrightarrow>
     (case fst pc of None \<Rightarrow> False
      | Some p \<Rightarrow> author (snd pc) \<noteq> author p \<and> minutes_between p (snd pc) < 15)"

section \<open>Reply samples of an author\<close>

text \<open>
  In the words of the specification: the qualifying samples of an author are the latencies
  of the speaker changes strictly under 60 minutes whose current event is of that author,
  in the order of the sequence.
\<close>

definition reply_samples :: "event list \<Rightarrow> string \<Rightarrow> rat list" where
  "reply_samples df a =
     map (latency df) (filter (\<lambda>i. author (df ! i) = a \<and> latency df i < 60) (speaker_changes df))"

section \<open>Consecutive pairs and latencies\<close>

lemma transitions_simps [simp]:
  "transitions [] = []"
  "transitions [x] = []"
  "transitions (x # y # zs) = (x, y) # transitions (y # zs)"
  by (simp_all add: transitions_def)

lemma transitions_snoc: "transitions (es @ [p, c]) = transitions (es @ [p]) @ [(p, c)]"
  by (induction es rule: induct_list012) simp_all

lemma transitions_nth:
  "transitions es = map (\<lambda>i. (es ! (i - 1), es ! i)) [1..<length es]"
proof (induction es rule: rev_induct)
  case Nil
  then show ?case by simp
next
  case (snoc x xs)
  show ?case
  proof (cases xs rule: rev_cases)
    case Nil
    then show ?thesis by simp
  next
    case (snoc ys y)
    have "transitions (xs @ [x]) = transitions xs @ [(y, x)]"
      using snoc transitions_snoc [of ys y x] by simp
    moreover have "map (\<lambda>i. ((xs @ [x]) ! (i - 1), (xs @ [x]) ! i)) [1..<length xs]
        = map (\<lambda>i. (xs ! (i - 1), xs ! i)) [1..<length xs]"
      by (rule map_cong) (auto simp: nth_append)
    moreover have "(xs @ [x]) ! (length xs - 1) = y"
      using snoc by (simp add: nth_append)
    ultimately show ?thesis
      using snoc.IH \<open>xs = ys @ [y]\<close> by (simp add: nth_append)
  qed
qed

lemma minutes_lt: "minutes_between p c < of_int k \<longleftrightarrow> datetime c - datetime p < 60 * k"
proof -
  have "minutes_between p c < of_int k \<longleftrightarrow>
      (of_int (datetime c - datetime p) :: rat) < of_int (60 * k)"
    unfolding minutes_between_def by (simp add: pos_divide_less_eq mult.commute)
  then show ?thesis by (simp only: of_int_less_iff)
qed

lemma minutes_lt_5: "minutes_between p c < 5 \<longleftrightarrow> datetime c - datetime p < 300"
  using minutes_lt [of p c 5] by simp

section \<open>The run in progress at the end of the scan\<close>

text \<open>
  C1. The three run scans append a run to their result only inside the loop, when the next
  pair breaks it; nothing follows the loop. Five messages of one author, one minute apart,
  are a monologue of 5, a burst of 5 and a chain of 5 that end at the last event: none of
  them is reported. The same five messages followed by one late message of another
  author are reported by all three analyses.
\<close>

theorem final_run_not_reported:
  "monologue_detection (map (mk_event ''A'') [0, 60, 120, 180, 240]) = Inr []
   \<and> conversation_length_analysis (map (mk_event ''A'') [0, 60, 120, 180, 240]) = []
   \<and> reply_chain_depth (map (mk_event ''A'') [0, 60, 120, 180, 240]) = []
   \<and> monologue_detection (map (mk_event ''A'') [0, 60, 120, 180, 240] @ [mk_event ''B'' 100000])
       = Inr [\<lparr>mono_author = ''A'', mono_count = 5, mono_start_time = 0\<rparr>]
   \<and> conversation_length_analysis
         (map (mk_event ''A'') [0, 60, 120, 180, 240] @ [mk_event ''B'' 100000]) = [5]
   \<and> reply_chain_depth
         (map (mk_event ''A'') [0, 60, 120, 180, 240] @ [mk_event ''B'' 100000]) = [5]"
  by (simp add: monologue_detection_def monologue_scan_def monologue_step_def mk_event_def
      conversation_length_analysis_def reply_chain_depth_def burst_scan_def chain_scan_def
      burst_step_def chain_step_def minutes_between_def upt_rec)

section \<open>The burst threshold\<close>

text \<open>
  C6. \<^verbatim>\<open>current_burst\<close> counts the events of the burst in progress, and
  \<^verbatim>\<open>bursts\<close> is the list of the bursts closed so far, the result of the analysis.
  Wherever the pair \<open>(prev, cur)\<close> stands in the sequence: at a gap of 5 minutes
  (300 seconds) or more, \<open>cur\<close> is not in the burst of \<open>prev\<close>: that burst is closed
  with the events counted up to \<open>prev\<close> (and appended to the result when it has more than
  one event), and \<open>cur\<close> starts a new burst of one event; at a gap of less than 5 minutes
  (299 seconds, say), \<open>cur\<close> joins the burst of \<open>prev\<close>: the counter is incremented and
  no burst is closed.
\<close>

theorem burst_threshold_boundary:
  "(300 \<le> datetime cur - datetime prev \<longrightarrow>
        burst_scan (es @ [prev, cur])
          = ((if snd (burst_scan (es @ [prev])) > 1
              then fst (burst_scan (es @ [prev])) @ [snd (burst_scan (es @ [prev]))]
              else fst (burst_scan (es @ [prev]))), 1))
   \<and> (datetime cur - datetime prev < 300 \<longrightarrow>
        burst_scan (es @ [prev, cur])
          = (fst (burst_scan (es @ [prev])), snd (burst_scan (es @ [prev])) + 1))"
  by (simp add: burst_scan_def transitions_snoc burst_step_def split_beta minutes_lt_5)

theorem burst_threshold_boundary_witness:
  "burst_scan ([mk_event ''A'' 0] @ [mk_event ''B'' 60, mk_event ''A'' 360]) = ([2], 1)
   \<and> burst_scan ([mk_event ''A'' 0] @ [mk_event ''B'' 60, mk_event ''A'' 359]) = ([], 3)
   \<and> burst_scan ([] @ [mk_event ''A'' 0, mk_event ''B'' 300]) = ([], 1)"
proof -
  have "burst_scan ([mk_event ''A'' 0] @ [mk_event ''B'' 60, mk_event ''A'' 360]) = ([2], 1)"
    using burst_threshold_boundary
      [where prev = "mk_event ''B'' 60" and cur = "mk_event ''A'' 360" and es = "[mk_event ''A'' 0]"]
    by (simp add: mk_event_def burst_scan_def burst_step_def minutes_between_def)
  moreover have "burst_scan ([mk_event ''A'' 0] @ [mk_event ''B'' 60, mk_event ''A'' 359]) = ([], 3)"
    using burst_threshold_boundary
      [where prev = "mk_event ''B'' 60" and cur = "mk_event ''A'' 359" and es = "[mk_event ''A'' 0]"]
    by (simp add: mk_event_def burst_scan_def burst_step_def minutes_between_def)
  moreover have "burst_scan ([] @ [mk_event ''A'' 0, mk_event ''B'' 300]) = ([], 1)"
    using burst_threshold_boundary
      [where prev = "mk_event ''A'' 0" and cur = "mk_event ''B'' 300" and es = "[]"]
    by (simp add: mk_event_def burst_scan_def)
  ultimately show ?thesis by simp
qed

lemma foldl_collect:
  "foldl (\<lambda>acc x. if P x then acc @ [f x] else acc) acc xs = acc @ map f (filter P xs)"
  by (induction xs arbitrary: acc) simp_all

lemma interactions_filter:
  "interactions df =
     map (\<lambda>pc. (author (fst pc), author (snd pc)))
       (filter (\<lambda>pc. author (snd pc) \<noteq> author (fst pc) \<and> minutes_between (fst pc) (snd pc) < 10)
          (transitions df))"
proof -
  have eq: "interaction_step = (\<lambda>acc pc.
      if author (snd pc) \<noteq> author (fst pc) \<and> minutes_between (fst pc) (snd pc) < 10
      then acc @ [(author (fst pc), author (snd pc))] else acc)"
    by (auto simp: fun_eq_iff interaction_step_def)
  show ?thesis
    unfolding interactions_def eq foldl_collect by simp
qed

lemma interactions_index:
  "interactions df =
     map (\<lambda>i. (author (df ! (i - 1)), author (df ! i)))
       (filter (\<lambda>i. latency df i < 10) (speaker_changes df))"
  unfolding interactions_filter transitions_nth speaker_changes_def latency_def
  by (simp add: filter_map comp_def conj_commute)

lemma response_times_filter:
  "response_times df =
     map (\<lambda>pc. minutes_between (fst pc) (snd pc))
       (filter (\<lambda>pc. author (snd pc) \<noteq> author (fst pc) \<and> minutes_between (fst pc) (snd pc) < 60)
          (transitions df))"
proof -
  have eq: "response_time_step = (\<lambda>acc pc.
      if author (snd pc) \<noteq> author (fst pc) \<and> minutes_between (fst pc) (snd pc) < 60
      then acc @ [minutes_between (fst pc) (snd pc)] else acc)"
    by (auto simp: fun_eq_iff response_time_step_def)
  show ?thesis
    unfolding response_times_def eq foldl_collect by simp
qed

lemma response_times_index:
  "response_times df = map (latency df) (filter (\<lambda>i. latency df i < 60) (speaker_changes df))"
  unfolding response_times_filter transitions_nth speaker_changes_def latency_def
  by (simp add: filter_map comp_def conj_commute)

lemma map_of_counter_add:
  "map_of (counter_add c x) =
     (map_of c)(x \<mapsto> (case map_of c x of None \<Rightarrow> 1 | Some n \<Rightarrow> n + 1))"
  by (auto simp: counter_add_def update_conv' fun_eq_iff map_add_def split: option.splits)

lemma map_of_foldl_counter_add:
  "map_of (foldl counter_add c xs) p =
     (if p \<in> set xs \<or> map_of c p \<noteq> None
      then Some ((case map_of c p of None \<Rightarrow> 0 | Some n \<Rightarrow> n) + count_list xs p)
      else None)"
  by (induction xs arbitrary: c) (auto simp: map_of_counter_add split: option.splits)

lemma map_of_Counter:
  "map_of (Counter xs) p = (if p \<in> set xs then Some (count_list xs p) else None)"
  by (simp add: Counter_def map_of_foldl_counter_add)

lemma speaker_changes_iff:
  "i \<in> set (speaker_changes df) \<longleftrightarrow>
     1 \<le> i \<and> i < length df \<and> author (df ! i) \<noteq> author (df ! (i - 1))"
  by (auto simp: speaker_changes_def)

lemma interactions_mem:
  "(a, b) \<in> set (interactions df) \<longleftrightarrow>
     (\<exists>i. 1 \<le> i \<and> i < length df \<and> author (df ! (i - 1)) = a \<and> author (df ! i) = b
          \<and> a \<noteq> b \<and> latency df i < 10)"
proof
  assume "(a, b) \<in> set (interactions df)"
  then obtain i where "i \<in> set (speaker_changes df)" "latency df i < 10"
    "a = author (df ! (i - 1))" "b = author (df ! i)"
    unfolding interactions_index by auto
  then show "\<exists>i. 1 \<le> i \<and> i < length df \<and> author (df ! (i - 1)) = a \<and> author (df ! i) = b
             \<and> a \<noteq> b \<and> latency df i < 10"
    unfolding speaker_changes_iff by (intro exI [of _ i]) auto
next
  assume "\<exists>i. 1 \<le> i \<and> i < length df \<and> author (df ! (i - 1)) = a \<and> author (df ! i) = b
             \<and> a \<noteq> b \<and> latency df i < 10"
  then obtain i where i: "1 \<le> i" "i < length df" "author (df ! (i - 1)) = a"
     "author (df ! i) = b" "a \<noteq> b" "latency df i < 10"
    by blast
  then have "i \<in> set (filter (\<lambda>i. latency df i < 10) (speaker_changes df))"
    by (auto simp: speaker_changes_iff)
  then have "(author (df ! (i - 1)), author (df ! i)) \<in> set (interactions df)"
    unfolding interactions_index by (simp only: set_map) (rule imageI)
  then show "(a, b) \<in> set (interactions df)"
    using i by simp
qed

lemma interactions_example:
  "interactions [mk_event ''A'' 0, mk_event ''B'' 180, mk_event ''B'' 720, mk_event ''A'' 840]
     = [(''A'', ''B''), (''B'', ''A'')]"
  by (simp add: interactions_def interaction_step_def mk_event_def minutes_between_def)

lemma author_interaction_matrix_example:
  "author_interaction_matrix
     [mk_event ''A'' 0, mk_event ''B'' 180, mk_event ''B'' 720, mk_event ''A'' 840]
     = [((''A'', ''B''), 1), ((''B'', ''A''), 1)]"
  unfolding author_interaction_matrix_def interactions_example
  by (simp add: most_common_def Counter_def counter_add_def)

lemma response_times_lt_60: "\<forall>x \<in> set (response_times df). x < 60"
  unfolding response_times_index by auto

lemma response_times_skip:
  "60 \<le> minutes_between prev cur \<Longrightarrow>
     response_times (es @ [prev, cur]) = response_times (es @ [prev])"
  by (simp add: response_times_def transitions_snoc response_time_step_def)

lemma upper_median_mem:
  "xs \<noteq> [] \<Longrightarrow> sort xs ! (length xs div 2) \<in> set (xs :: rat list)"
proof -
  assume "xs \<noteq> []"
  then have "length xs div 2 < length (sort xs)"
    by simp
  then have "sort xs ! (length xs div 2) \<in> set (sort xs)"
    by (rule nth_mem)
  then show ?thesis by simp
qed

lemma response_time_analysis_nonempty:
  "response_times df \<noteq> [] \<Longrightarrow>
     response_time_analysis df =
       Some (sum_list (response_times df) / of_nat (length (response_times df)),
             sort (response_times df) ! (length (response_times df) div 2))"
  by (simp add: response_time_analysis_def Let_def)

lemma response_time_analysis_empty:
  "response_times df = [] \<Longrightarrow> response_time_analysis df = None"
  by (simp add: response_time_analysis_def Let_def)

section \<open>Interaction edges\<close>

text \<open>
  C4. The list \<^verbatim>\<open>interactions\<close> holds, in order, the pair (previous author, current
  author) of exactly the positions where the speaker changed and the latency is below 10
  minutes; the \<^verbatim>\<open>Counter\<close> gives every ordered pair the number of its occurrences
  in that list; and the four events A at 0, B at 3, B at 12, A at 14 minutes give one edge
  from A to B and one edge from B to A.
\<close>

theorem interaction_edges:
  "interactions df =
     map (\<lambda>i. (author (df ! (i - 1)), author (df ! i)))
       (filter (\<lambda>i. latency df i < 10) (speaker_changes df))
   \<and> ((a, b) \<in> set (interactions df) \<longleftrightarrow>
        (\<exists>i. 1 \<le> i \<and> i < length df \<and> author (df ! (i - 1)) = a \<and> author (df ! i) = b
             \<and> a \<noteq> b \<and> latency df i < 10))
   \<and> map_of (Counter (interactions df)) (a, b) =
        (if (a, b) \<in> set (interactions df) then Some (count_list (interactions df) (a, b))
         else None)
   \<and> interactions [mk_event ''A'' 0, mk_event ''B'' 180, mk_event ''B'' 720, mk_event ''A'' 840]
        = [(''A'', ''B''), (''B'', ''A'')]
   \<and> author_interaction_matrix
        [mk_event ''A'' 0, mk_event ''B'' 180, mk_event ''B'' 720, mk_event ''A'' 840]
        = [((''A'', ''B''), 1), ((''B'', ''A''), 1)]"
  by (intro conjI interactions_index interactions_mem map_of_Counter interactions_example
      author_interaction_matrix_example)

section \<open>Response time\<close>

text \<open>
  C5. The sample \<^verbatim>\<open>response_times\<close> holds, in order, the latencies of exactly the
  positions where the speaker changed and the latency is below 60 minutes: every element
  is below 60, and a transition of 60 minutes or more (61, say) leaves the sample as it
  was. For a non-empty sample the analysis reports the mean and, as the median, the
  element at index \<open>length div 2\<close> of the sorted sample, which is an element of the
  sample (for two elements, the larger one); for an empty sample it reports nothing.
\<close>

theorem response_time_sample_and_median:
  "response_times df = map (latency df) (filter (\<lambda>i. latency df i < 60) (speaker_changes df))
   \<and> (\<forall>x \<in> set (response_times df). x < 60)
   \<and> (60 \<le> minutes_between prev cur \<longrightarrow>
        response_times (es @ [prev, cur]) = response_times (es @ [prev]))
   \<and> (response_times df \<noteq> [] \<longrightarrow>
        response_time_analysis df =
          Some (sum_list (response_times df) / of_nat (length (response_times df)),
                sort (response_times df) ! (length (response_times df) div 2))
        \<and> sort (response_times df) ! (length (response_times df) div 2)
            \<in> set (response_times df))
   \<and> (response_times df = [] \<longrightarrow> response_time_analysis df = None)"
  by (intro conjI impI response_times_index response_times_lt_60 response_times_skip
      response_time_analysis_nonempty upper_median_mem response_time_analysis_empty)

theorem response_time_sample_and_median_witness:
  "response_times ([mk_event ''A'' 0, mk_event ''B'' 180, mk_event ''B'' 720]
       @ [mk_event ''A'' 840, mk_event ''B'' 4500]) = [3, 2]
   \<and> response_time_analysis [mk_event ''A'' 0, mk_event ''B'' 180, mk_event ''B'' 720,
       mk_event ''A'' 840] = Some (5 / 2, 3)
   \<and> response_time_analysis [mk_event ''A'' 0] = None"
proof -
  let ?df = "[mk_event ''A'' 0, mk_event ''B'' 180, mk_event ''B'' 720, mk_event ''A'' 840]"
  note T = response_time_sample_and_median
      [where es = "[mk_event ''A'' 0, mk_event ''B'' 180, mk_event ''B'' 720]"
         and prev = "mk_event ''A'' 840" and cur = "mk_event ''B'' 4500"]
  have rt: "response_times ?df = [3, 2]"
    by (simp add: response_times_def response_time_step_def mk_event_def minutes_between_def)
  have far: "60 \<le> minutes_between (mk_event ''A'' 840) (mk_event ''B'' 4500)"
    by (simp add: mk_event_def minutes_between_def)
  have "response_times ([mk_event ''A'' 0, mk_event ''B'' 180, mk_event ''B'' 720]
      @ [mk_event ''A'' 840, mk_event ''B'' 4500]) = [3, 2]"
    using T [where df = ?df, THEN conjunct2, THEN conjunct2, THEN conjunct1, rule_format, OF far] rt
    by simp
  moreover have "response_time_analysis ?df = Some (5 / 2, 3)"
    using T [where df = ?df, THEN conjunct2, THEN conjunct2, THEN conjunct2, THEN conjunct1] rt
    by simp
  moreover have "response_times [mk_event ''A'' 0] = []"
    by (simp add: response_times_def)
  then have "response_time_analysis [mk_event ''A'' 0] = None"
    using T [where df = "[mk_event ''A'' 0]", THEN conjunct2, THEN conjunct2, THEN conjunct2,
        THEN conjunct2]
    by simp
  ultimately show ?thesis by simp
qed

lemma unique_foldl:
  "set (foldl (\<lambda>acc x. if x \<in> set acc then acc else acc @ [x]) acc xs) = set acc \<union> set xs
   \<and> (distinct acc \<longrightarrow> distinct (foldl (\<lambda>acc x. if x \<in> set acc then acc else acc @ [x]) acc xs))"
  by (induction xs arbitrary: acc) auto

lemma set_unique [simp]: "set (unique xs) = set xs"
  using unique_foldl [of "[]" xs] by (simp add: unique_def)

lemma distinct_unique [simp]: "distinct (unique xs)"
  using unique_foldl [of "[]" xs] by (simp add: unique_def)

lemma sort_unique: "sort (unique xs) = sorted_list_of_set (set xs)"
proof (rule sorted_distinct_set_unique)
  show "sorted (sort (unique xs))" by simp
  show "distinct (sort (unique xs))" by simp
  show "sorted (sorted_list_of_set (set xs))" by simp
  show "distinct (sorted_list_of_set (set xs))" by simp
  show "set (sort (unique xs)) = set (sorted_list_of_set (set xs))" by simp
qed

lemma streak_analysis_set:
  "streak_analysis df = streak_scan (sorted_list_of_set (date_only ` set df))"
  by (simp add: streak_analysis_def sort_unique)

lemma streak_example_dates:
  "sorted_list_of_set {D, D + 1, D + 2, D + 5, D + 6 :: int} = [D, D + 1, D + 2, D + 5, D + 6]"
proof -
  have "sorted_list_of_set (set [D, D + 1, D + 2, D + 5, D + 6])
      = [D, D + 1, D + 2, D + 5, D + 6]"
    by (rule sorted_distinct_set_unique) simp_all
  then show ?thesis by simp
qed

lemma streak_example:
  "streak_scan [D, D + 1, D + 2, D + 5, D + 6] = Inr (3, D + 2)"
  by (simp add: streak_scan_def streak_loop_def streak_step_def)

section \<open>The day streak\<close>

lemma streak_loop_single [simp]: "streak_loop [d] = (1, 1, d)"
  by (simp add: streak_loop_def)

lemma streak_loop_snoc:
  "ds \<noteq> [] \<Longrightarrow> streak_loop (ds @ [x]) = streak_step (streak_loop ds) (last ds, x)"
proof -
  assume "ds \<noteq> []"
  then obtain ys y where ds: "ds = ys @ [y]"
    by (cases ds rule: rev_cases) auto
  have "(ys @ [y, x]) ! 0 = (ys @ [y]) ! 0"
    by (cases ys) simp_all
  then show ?thesis
    using transitions_snoc [of ys y x] by (simp add: streak_loop_def ds)
qed

lemma is_streak_top:
  assumes "is_streak (insert x S) k e" and "\<forall>y\<in>S. y < x"
  shows "is_streak S k e \<or> e = x"
proof (cases "e = x")
  case False
  have "e - int j \<in> S" if "j < k" for j
  proof -
    have "e - int j \<in> insert x S" using assms(1) that by (simp add: is_streak_def)
    moreover have "e \<in> insert x S" using assms(1) by (auto simp: is_streak_def dest: spec [of _ 0])
    then have "e < x" using False assms(2) by auto
    then have "e - int j \<noteq> x" by simp
    ultimately show ?thesis by simp
  qed
  then show ?thesis using assms(1) by (simp add: is_streak_def)
qed simp

lemma is_streak_mono: "is_streak S k e \<Longrightarrow> S \<subseteq> T \<Longrightarrow> is_streak T k e"
  by (auto simp: is_streak_def)

lemma is_streak_bound:
  assumes "is_streak S k e" and "e - int c \<notin> S"
  shows "k \<le> c"
proof (rule ccontr)
  assume "\<not> k \<le> c"
  then have "c < k" by simp
  then have "e - int c \<in> S" using assms(1) by (simp add: is_streak_def)
  then show False using assms(2) by simp
qed

lemma streak_inv_step:
  assumes inv: "streak_inv S l st" and lmax: "\<forall>y\<in>S. y \<le> l" and lx: "l < x"
  shows "streak_inv (insert x S) x (streak_step st (l, x))"
proof -
  obtain c m e where st: "st = (c, m, e)" by (cases st)
  have top: "\<forall>y\<in>S. y < x" using lmax lx by auto
  from inv st have c: "is_streak S c l" and nc: "l - int c \<notin> S" and cm: "c \<le> m"
    and me: "is_streak S m e"
    and mx: "\<And>k e'. is_streak S k e' \<Longrightarrow> k \<le> m"
    and first: "\<And>e'. is_streak S m e' \<Longrightarrow> e \<le> e'"
    by (auto simp: streak_inv_def)
  have eS: "e \<in> S" using me by (auto simp: is_streak_def dest: spec [of _ 0])
  have ex: "e < x" using top eS by simp
  show ?thesis
  proof (cases "x - l = 1")
    case True
    then have xl: "x = l + 1" by simp
    have c': "is_streak (insert x S) (c + 1) x"
      unfolding is_streak_def
    proof (intro conjI allI impI)
      fix j assume j: "j < c + 1"
      show "x - int j \<in> insert x S"
      proof (cases j)
        case 0 then show ?thesis by simp
      next
        case (Suc i)
        then have "i < c" using j by simp
        then have "l - int i \<in> S" using c by (simp add: is_streak_def)
        moreover have "x - int j = l - int i" using xl Suc by simp
        ultimately show ?thesis by simp
      qed
    qed simp
    have nc': "x - int (c + 1) \<notin> insert x S"
      using nc xl by simp
    have bound: "k \<le> c + 1" if "is_streak (insert x S) k x" for k
      using is_streak_bound [OF that nc'] .
    have mx': "k \<le> max m (c + 1)" if "is_streak (insert x S) k e'" for k e'
    proof -
      from is_streak_top [OF that top] show ?thesis
      proof
        assume "is_streak S k e'"
        then have "k \<le> m" by (rule mx)
        then show ?thesis by simp
      next
        assume "e' = x"
        then have "k \<le> c + 1" using that bound by simp
        then show ?thesis by simp
      qed
    qed
    show ?thesis
    proof (cases "c + 1 > m")
      case gt: True
      have "e' = x" if "is_streak (insert x S) (c + 1) e'" for e'
        using is_streak_top [OF that top] mx [of "c + 1" e'] gt by auto
      then show ?thesis
        using True gt c' nc' mx' by (auto simp: st streak_step_def streak_inv_def max_def)
    next
      case le: False
      have "e \<le> e'" if "is_streak (insert x S) m e'" for e'
        using is_streak_top [OF that top] first ex by auto
      moreover have "is_streak (insert x S) m e"
        using me by (rule is_streak_mono) auto
      ultimately show ?thesis
        using True le c' nc' mx' by (auto simp: st streak_step_def streak_inv_def max_def)
    qed
  next
    case False
    then have gap: "l + 1 < x" using lx by simp
    have c': "is_streak (insert x S) 1 x"
      by (simp add: is_streak_def)
    have nc': "x - int 1 \<notin> insert x S"
      using lmax gap by auto
    have bound: "k \<le> 1" if "is_streak (insert x S) k x" for k
      using is_streak_bound [OF that nc'] .
    have m1: "1 \<le> m" using me by (simp add: is_streak_def)
    have mx': "k \<le> m" if "is_streak (insert x S) k e'" for k e'
    proof -
      from is_streak_top [OF that top] show ?thesis
      proof
        assume "is_streak S k e'"
        then show ?thesis by (rule mx)
      next
        assume "e' = x"
        then have "k \<le> 1" using that bound by simp
        then show ?thesis using m1 by simp
      qed
    qed
    have "e \<le> e'" if "is_streak (insert x S) m e'" for e'
      using is_streak_top [OF that top] first ex by auto
    moreover have "is_streak (insert x S) m e"
      using me by (rule is_streak_mono) auto
    ultimately show ?thesis
      using False c' nc' mx' m1 by (auto simp: st streak_step_def streak_inv_def)
  qed
qed

lemma is_streak_end: "is_streak S k e \<Longrightarrow> e \<in> S"
  by (auto simp: is_streak_def dest: spec [of _ 0])

lemma streak_inv_single: "streak_inv {d} d (1, 1, d)"
proof -
  have a: "is_streak {d} 1 d" by (simp add: is_streak_def)
  have b: "k \<le> 1" if "is_streak {d} k e'" for k e'
  proof -
    have "e' = d" using is_streak_end [OF that] by simp
    then have "e' - int 1 \<notin> {d}" by simp
    then show ?thesis using is_streak_bound [OF that] by blast
  qed
  have c: "d \<le> e'" if "is_streak {d} 1 e'" for e'
    using is_streak_end [OF that] by simp
  show ?thesis
    unfolding streak_inv_def using a b c by auto
qed

lemma sorted_le_last: "sorted xs \<Longrightarrow> y \<in> set xs \<Longrightarrow> y \<le> (last xs :: int)"
  by (induction xs) auto

lemma streak_loop_inv:
  "ds \<noteq> [] \<Longrightarrow> sorted ds \<Longrightarrow> distinct ds \<Longrightarrow> streak_inv (set ds) (last ds) (streak_loop ds)"
proof (induction ds rule: rev_induct)
  case Nil
  then show ?case by simp
next
  case (snoc x xs)
  show ?case
  proof (cases "xs = []")
    case True
    then show ?thesis using streak_inv_single [of x] by simp
  next
    case False
    have s: "sorted xs" and d: "distinct xs" using snoc.prems by (auto simp: sorted_append)
    have inv: "streak_inv (set xs) (last xs) (streak_loop xs)"
      using snoc.IH [OF False s d] .
    have lmax: "\<forall>y\<in>set xs. y \<le> last xs"
      using s sorted_le_last by blast
    have l: "last xs \<in> set xs" using False by simp
    then have "last xs \<le> x" using snoc.prems(2) by (simp add: sorted_append)
    moreover have "last xs \<noteq> x" using l snoc.prems(3) by auto
    ultimately have lx: "last xs < x" by simp
    show ?thesis
      using streak_inv_step [OF inv lmax lx] streak_loop_snoc [OF False, of x]
      by (simp add: insert_commute Un_commute)
  qed
qed

lemma streak_scan_sorted:
  assumes "finite S" and "S \<noteq> {}"
  shows "\<exists>m e. streak_scan (sorted_list_of_set S) = Inr (m, e) \<and> is_streak S m e
     \<and> (\<forall>k e'. is_streak S k e' \<longrightarrow> k \<le> m) \<and> (\<forall>e'. is_streak S m e' \<longrightarrow> e \<le> e')"
proof -
  let ?ds = "sorted_list_of_set S"
  have ne: "?ds \<noteq> []" using assms by simp
  have "streak_inv (set ?ds) (last ?ds) (streak_loop ?ds)"
    by (rule streak_loop_inv [OF ne]) simp_all
  then have inv: "streak_inv S (last ?ds) (streak_loop ?ds)" using assms by simp
  obtain c m e where st: "streak_loop ?ds = (c, m, e)" by (cases "streak_loop ?ds")
  show ?thesis
    using inv ne by (simp add: st streak_inv_def streak_scan_def)
qed

text \<open>
  C3. The result of \<^verbatim>\<open>streak_analysis\<close> depends on the set of the calendar dates of the
  events only: two frames with the same set of dates, whatever the number and the order
  of the events of a day, give the same result. For a frame that is not empty the analysis
  returns the length \<open>m\<close> of the longest span of consecutive calendar dates (each one day
  after the one before) that all have an event, and the end \<open>e\<close> of the earliest span of
  that length. When the dates are \<open>D, D + 1, D + 2, D + 5, D + 6\<close>, the result is 3 and
  \<open>D + 2\<close>.
\<close>

theorem day_streak:
  "(date_only ` set df = date_only ` set df' \<longrightarrow> streak_analysis df = streak_analysis df')
   \<and> (df \<noteq> [] \<longrightarrow>
        (\<exists>m e. streak_analysis df = Inr (m, e)
           \<and> is_streak (date_only ` set df) m e
           \<and> (\<forall>k e'. is_streak (date_only ` set df) k e' \<longrightarrow> k \<le> m)
           \<and> (\<forall>e'. is_streak (date_only ` set df) m e' \<longrightarrow> e \<le> e')))
   \<and> (date_only ` set df = {D, D + 1, D + 2, D + 5, D + 6} \<longrightarrow>
        streak_analysis df = Inr (3, D + 2))"
proof (intro conjI impI)
  assume "date_only ` set df = date_only ` set df'"
  then show "streak_analysis df = streak_analysis df'"
    by (simp add: streak_analysis_set)
next
  assume "df \<noteq> []"
  then have "date_only ` set df \<noteq> {}" by simp
  then show "\<exists>m e. streak_analysis df = Inr (m, e)
           \<and> is_streak (date_only ` set df) m e
           \<and> (\<forall>k e'. is_streak (date_only ` set df) k e' \<longrightarrow> k \<le> m)
           \<and> (\<forall>e'. is_streak (date_only ` set df) m e' \<longrightarrow> e \<le> e')"
    unfolding streak_analysis_set by (intro streak_scan_sorted) simp_all
next
  assume "date_only ` set df = {D, D + 1, D + 2, D + 5, D + 6}"
  then show "streak_analysis df = Inr (3, D + 2)"
    by (simp only: streak_analysis_set streak_example_dates streak_example)
qed

theorem day_streak_witness:
  "streak_analysis (map (\<lambda>t. mk_event ''A'' t)
       [1382400, 864000, 864060, 950400, 1036800, 1296000, 1296060]) = Inr (3, 12)
   \<and> streak_analysis (map (\<lambda>t. mk_event ''A'' t)
       [1382400, 864000, 864060, 950400, 1036800, 1296000, 1296060])
     = streak_analysis (map (\<lambda>t. mk_event ''B'' t) [864000, 950400, 1036800, 1296000, 1382400])
   \<and> streak_analysis [mk_event ''A'' 864000, mk_event ''B'' 1036800] = Inr (1, 10)
   \<and> is_streak {10, 12} 1 10"
proof -
  let ?df = "map (\<lambda>t. mk_event ''A'' t)
       [1382400, 864000, 864060, 950400, 1036800, 1296000, 1296060]"
  let ?df' = "map (\<lambda>t. mk_event ''B'' t) [864000, 950400, 1036800, 1296000, 1382400]"
  let ?df2 = "[mk_event ''A'' 864000, mk_event ''B'' 1036800]"
  have d: "date_only ` set ?df = {10, 10 + 1, 10 + 2, 10 + 5, 10 + 6}"
    by (auto simp: date_only_def mk_event_def)
  have d': "date_only ` set ?df = date_only ` set ?df'"
    by (auto simp: date_only_def mk_event_def)
  have d2: "date_only ` set ?df2 = {10, 12}"
    by (auto simp: date_only_def mk_event_def)
  have "streak_analysis ?df = Inr (3, 12)"
    using day_streak [where df = ?df and D = 10, THEN conjunct2, THEN conjunct2, rule_format, OF d]
    by simp
  moreover have "streak_analysis ?df = streak_analysis ?df'"
    using day_streak [where df = ?df and df' = ?df', THEN conjunct1, rule_format, OF d'] .
  moreover have "streak_analysis ?df2 = Inr (1, 10) \<and> is_streak {10, 12} 1 10"
  proof -
    from day_streak [where df = ?df2, THEN conjunct2, THEN conjunct1]
    obtain m e where r: "streak_analysis ?df2 = Inr (m, e)"
      and s: "is_streak {10, 12} m e"
      and first: "\<forall>e'. is_streak {10, 12} m e' \<longrightarrow> e \<le> e'"
      unfolding d2 by auto
    have e: "e = 10 \<or> e = 12" using is_streak_end [OF s] by simp
    then have "e - int 1 \<notin> {10, 12}" by auto
    then have "m \<le> 1" using is_streak_bound [OF s] by blast
    moreover have "1 \<le> m" using s by (simp add: is_streak_def)
    ultimately have m: "m = 1" by simp
    have one: "is_streak {10, 12} 1 10" by (simp add: is_streak_def)
    then have "e \<le> 10" using first m by simp
    then have "e = 10" using e by auto
    then show ?thesis using r m one by simp
  qed
  ultimately show ?thesis by blast
qed

section \<open>The response rate\<close>

lemma map_of_tab:
  "map_of (map (\<lambda>a. (a, f a)) ks) k = (if k \<in> set ks then Some (f k) else None)"
  by (induction ks) auto

lemma update_tab:
  "distinct ks \<Longrightarrow> k \<in> set ks \<Longrightarrow>
   AList.update k v (map (\<lambda>a. (a, f a)) ks) = map (\<lambda>a. (a, (f(k := v)) a)) ks"
  by (induction ks) auto

lemma rate_step_tab:
  assumes "distinct ks" and "author c \<in> set ks"
  shows "rate_step (map (\<lambda>a. (a, f a)) ks, map (\<lambda>a. (a, g a)) ks) (p, c)
     = Inr (map (\<lambda>a. (a, (f(author c := f (author c) + 1)) a)) ks,
            map (\<lambda>a. (a, (if is_response (p, c) then g(author c := g (author c) + 1) else g) a)) ks)"
  using assms
  by (cases p) (simp_all add: rate_step_def map_of_tab update_tab is_response_def Let_def)

lemma fold_rate:
  assumes "distinct ks" and "\<forall>pc \<in> set xs. author (snd pc) \<in> set ks"
  shows "fold_err rate_step xs (map (\<lambda>a. (a, f a)) ks, map (\<lambda>a. (a, g a)) ks)
     = Inr (map (\<lambda>a. (a, f a + length (filter (\<lambda>pc. author (snd pc) = a) xs))) ks,
            map (\<lambda>a. (a, g a + length (filter (\<lambda>pc. author (snd pc) = a \<and> is_response pc) xs))) ks)"
  using assms(2)
proof (induction xs arbitrary: f g)
  case Nil
  then show ?case by simp
next
  case (Cons x xs)
  obtain p c where x: "x = (p, c)" by (cases x)
  have c: "author c \<in> set ks" using Cons.prems x by simp
  have rest: "\<forall>pc \<in> set xs. author (snd pc) \<in> set ks" using Cons.prems by simp
  show ?case
    unfolding x fold_err.simps rate_step_tab [OF assms(1) c] sum.case
    by (subst Cons.IH [OF rest]) (auto simp: fun_eq_iff)
qed

lemma zip_map_fst:
  "zip (map f xs) ys = map (\<lambda>pc. (f (fst pc), snd pc)) (zip xs ys)"
  by (induction xs ys rule: list_induct2') simp_all

lemma loop_pairs:
  "zip (None # map Some df) df
     = (case df of [] \<Rightarrow> [] | e # es \<Rightarrow> (None, e) # map (\<lambda>pc. (Some (fst pc), snd pc)) (transitions df))"
proof (cases df)
  case Nil
  then show ?thesis by simp
next
  case (Cons e es)
  have "zip (map Some (e # es)) es = map (\<lambda>pc. (Some (fst pc), snd pc)) (zip (e # es) es)"
    by (rule zip_map_fst)
  then show ?thesis using Cons by (simp add: transitions_def)
qed

lemma loop_pairs_snd: "map snd (zip (None # map Some df) df) = df"
  by (simp add: map_snd_zip_take)

lemma length_filter_snd:
  "length (filter (\<lambda>pc. P (snd pc)) zs) = length (filter P (map snd zs))"
  by (induction zs) simp_all

lemma count_messages:
  "length (filter (\<lambda>pc. author (snd pc) = a) (zip (None # map Some df) df)) = messages_of df a"
  unfolding messages_of_def length_filter_snd [of "\<lambda>e. author e = a"] loop_pairs_snd ..

lemma count_responses:
  "length (filter (\<lambda>pc. author (snd pc) = a \<and> is_response pc) (zip (None # map Some df) df))
     = responses_of df a"
proof -
  have "length (filter (\<lambda>pc. author (snd pc) = a \<and> is_response pc) (zip (None # map Some df) df))
      = length (filter (\<lambda>pc. author (snd pc) = a \<and> author (snd pc) \<noteq> author (fst pc)
          \<and> minutes_between (fst pc) (snd pc) < 15) (transitions df))"
    unfolding loop_pairs
    by (cases df) (simp_all add: is_response_def filter_map o_def)
  also have "\<dots> = length (filter (\<lambda>i. author (df ! i) = a \<and> author (df ! i) \<noteq> author (df ! (i - 1))
          \<and> latency df i < 15) [1..<length df])"
    unfolding transitions_nth by (simp add: filter_map o_def latency_def)
  also have "\<dots> = responses_of df a"
    unfolding responses_of_def speaker_changes_def filter_filter
    by (rule arg_cong [where f = length], rule filter_cong) auto
  finally show ?thesis .
qed

lemma response_counts_closed:
  "response_counts df
     = Inr (map (\<lambda>a. (a, messages_of df a)) (unique (map author df)),
            map (\<lambda>a. (a, responses_of df a)) (unique (map author df)))"
proof -
  have "\<forall>pc \<in> set (zip (None # map Some df) df). author (snd pc) \<in> set (unique (map author df))"
    by (auto dest: set_zip_rightD)
  from fold_rate [OF distinct_unique this, of "\<lambda>a. 0" "\<lambda>a. 0"]
  show ?thesis
    unfolding response_counts_def by (simp add: count_messages count_responses)
qed

lemma responses_le_messages: "responses_of df a \<le> messages_of df a"
proof -
  have "responses_of df a
      = length (filter (\<lambda>pc. author (snd pc) = a \<and> is_response pc) (zip (None # map Some df) df))"
    by (simp add: count_responses)
  also have "\<dots> = length (filter is_response (filter (\<lambda>pc. author (snd pc) = a) (zip (None # map Some df) df)))"
    by (simp add: conj_commute)
  also have "\<dots> \<le> length (filter (\<lambda>pc. author (snd pc) = a) (zip (None # map Some df) df))"
    by (rule length_filter_le)
  also have "\<dots> = messages_of df a" by (rule count_messages)
  finally show ?thesis .
qed

lemma rate_rows_closed:
  assumes "\<forall>kv \<in> set kvs. map_of ar (fst kv) = Some (r (fst kv))"
  shows "rate_rows ar kvs
     = Inr (map (\<lambda>kv. (fst kv, of_nat (r (fst kv)) / of_nat (snd kv) * 100, snd kv))
              (filter (\<lambda>kv. snd kv > 0) kvs))"
  using assms by (induction kvs) auto

lemma author_response_rate_closed:
  "author_response_rate df
     = Inr (map (\<lambda>kv. (fst kv, of_nat (responses_of df (fst kv)) / of_nat (snd kv) * 100, snd kv))
              (filter (\<lambda>kv. snd kv > 0)
                 (take 15 (sort_key (\<lambda>kv. - int (snd kv))
                    (map (\<lambda>a. (a, messages_of df a)) (unique (map author df)))))))"
proof -
  let ?am = "map (\<lambda>a. (a, messages_of df a)) (unique (map author df))"
  let ?ar = "map (\<lambda>a. (a, responses_of df a)) (unique (map author df))"
  have "\<forall>kv \<in> set (take 15 (sort_key (\<lambda>kv. - int (snd kv)) ?am)).
      map_of ?ar (fst kv) = Some (responses_of df (fst kv))"
  proof
    fix kv assume "kv \<in> set (take 15 (sort_key (\<lambda>kv. - int (snd kv)) ?am))"
    then have "kv \<in> set ?am" by (auto dest: in_set_takeD)
    then have "fst kv \<in> set (unique (map author df))" by auto
    then show "map_of ?ar (fst kv) = Some (responses_of df (fst kv))"
      by (simp only: map_of_tab if_True)
  qed
  from rate_rows_closed [OF this] show ?thesis
    unfolding author_response_rate_def response_counts_closed by simp
qed

lemma rate_bound:
  assumes "r \<le> m" and "0 < (m :: nat)"
  shows "0 \<le> (of_nat r / of_nat m * 100 :: rat) \<and> (of_nat r / of_nat m * 100 :: rat) \<le> 100"
proof -
  have le: "(of_nat r :: rat) \<le> of_nat m" using assms(1) by simp
  have pos: "(0 :: rat) < of_nat m" using assms(2) by simp
  have "(of_nat r / of_nat m :: rat) \<le> 1" using le pos by (simp add: divide_le_eq)
  from mult_right_mono [OF this, of 100]
  have "(of_nat r / of_nat m * 100 :: rat) \<le> 100" by simp
  moreover have "0 \<le> (of_nat r / of_nat m * 100 :: rat)" by simp
  ultimately show ?thesis by (rule conjI [rotated])
qed

text \<open>
  C9. After the loop of \<^verbatim>\<open>author_response_rate\<close>, which never reads a missing key,
  \<^verbatim>\<open>author_messages\<close> holds for every author of the frame the number of the events of
  that author and \<^verbatim>\<open>author_responses\<close> the number of those among them that stand at a
  speaker change with a latency under 15 minutes. The responses of an author are
  therefore never more than the messages, and every rate of the report is the quotient
  of the two counts of its author, times 100, between 0 and 100.
\<close>

theorem response_rate_bounded:
  "response_counts df
     = Inr (map (\<lambda>a. (a, messages_of df a)) (unique (map author df)),
            map (\<lambda>a. (a, responses_of df a)) (unique (map author df)))
   \<and> responses_of df a \<le> messages_of df a
   \<and> (\<exists>rows. author_response_rate df = Inr rows
        \<and> (\<forall>row \<in> set rows.
              snd (snd row) = messages_of df (fst row) \<and> 0 < snd (snd row)
              \<and> fst (snd row)
                  = of_nat (responses_of df (fst row)) / of_nat (messages_of df (fst row)) * 100
              \<and> 0 \<le> fst (snd row) \<and> fst (snd row) \<le> 100))"
proof (intro conjI)
  show "response_counts df
     = Inr (map (\<lambda>a. (a, messages_of df a)) (unique (map author df)),
            map (\<lambda>a. (a, responses_of df a)) (unique (map author df)))"
    by (rule response_counts_closed)
  show "responses_of df a \<le> messages_of df a"
    by (rule responses_le_messages)
  let ?am = "map (\<lambda>a. (a, messages_of df a)) (unique (map author df))"
  let ?kvs = "filter (\<lambda>kv. snd kv > 0) (take 15 (sort_key (\<lambda>kv. - int (snd kv)) ?am))"
  let ?rows = "map (\<lambda>kv. (fst kv, of_nat (responses_of df (fst kv)) / of_nat (snd kv) * 100 :: rat, snd kv)) ?kvs"
  have rows: "author_response_rate df = Inr ?rows"
    by (rule author_response_rate_closed)
  have "snd (snd row) = messages_of df (fst row) \<and> 0 < snd (snd row)
      \<and> fst (snd row) = of_nat (responses_of df (fst row)) / of_nat (messages_of df (fst row)) * 100
      \<and> 0 \<le> fst (snd row) \<and> fst (snd row) \<le> 100" if "row \<in> set ?rows" for row
  proof -
    from that obtain kv where kv: "kv \<in> set ?kvs"
      and row: "row = (fst kv, of_nat (responses_of df (fst kv)) / of_nat (snd kv) * 100, snd kv)"
      by auto
    from kv have pos: "0 < snd kv" by simp
    from kv have "kv \<in> set (take 15 (sort_key (\<lambda>kv. - int (snd kv)) ?am))" by simp
    then have "kv \<in> set ?am" by (auto dest: in_set_takeD)
    then have m: "snd kv = messages_of df (fst kv)" by auto
    have le: "responses_of df (fst kv) \<le> snd kv"
      unfolding m by (rule responses_le_messages)
    show ?thesis
      using rate_bound [OF le pos] pos m by (simp add: row)
  qed
  then show "\<exists>rows. author_response_rate df = Inr rows
        \<and> (\<forall>row \<in> set rows.
              snd (snd row) = messages_of df (fst row) \<and> 0 < snd (snd row)
              \<and> fst (snd row)
                  = of_nat (responses_of df (fst row)) / of_nat (messages_of df (fst row)) * 100
              \<and> 0 \<le> fst (snd row) \<and> fst (snd row) \<le> 100)"
    using rows by blast
qed

theorem response_rate_bounded_witness:
  "response_counts [mk_event ''A'' 0, mk_event ''B'' 60, mk_event ''B'' 120, mk_event ''A'' 1200,
       mk_event ''B'' 1260]
     = Inr ([(''A'', 2), (''B'', 3)], [(''A'', 0), (''B'', 2)])
   \<and> author_response_rate [mk_event ''A'' 0, mk_event ''B'' 60, mk_event ''B'' 120,
       mk_event ''A'' 1200, mk_event ''B'' 1260]
     = Inr [(''B'', 200 / 3, 3), (''A'', 0, 2)]
   \<and> (200 / 3 :: rat) \<le> 100"
proof -
  let ?df = "[mk_event ''A'' 0, mk_event ''B'' 60, mk_event ''B'' 120, mk_event ''A'' 1200,
       mk_event ''B'' 1260]"
  have u: "unique (map author ?df) = [''A'', ''B'']"
    by (simp add: unique_def mk_event_def)
  have m: "messages_of ?df ''A'' = 2" "messages_of ?df ''B'' = 3"
    by (simp_all add: messages_of_def mk_event_def)
  have r: "responses_of ?df ''A'' = 0" "responses_of ?df ''B'' = 2"
    by (simp_all add: responses_of_def speaker_changes_def latency_def minutes_between_def
        mk_event_def upt_rec)
  have c: "response_counts ?df = Inr ([(''A'', 2), (''B'', 3)], [(''A'', 0), (''B'', 2)])"
    using response_rate_bounded [where df = ?df and a = "''A''", THEN conjunct1]
    unfolding u by (simp add: m r)
  have rows: "author_response_rate ?df = Inr [(''B'', 200 / 3, 3), (''A'', 0, 2)]"
    unfolding author_response_rate_def c by simp
  from response_rate_bounded [where df = ?df and a = "''B''", THEN conjunct2, THEN conjunct2]
  have "(200 / 3 :: rat) \<le> 100" unfolding rows by simp
  with c rows show ?thesis by simp
qed

section \<open>The reply speed\<close>

lemma reply_step_tab:
  assumes "distinct ks" and "author c \<in> set ks"
  shows "reply_step (map (\<lambda>a. (a, f a)) ks) (p, c)
     = Inr (map (\<lambda>a. (a, f a @ (if author c = a \<and> author c \<noteq> author p \<and> minutes_between p c < 60
                                  then [minutes_between p c] else []))) ks)"
proof (cases "author c \<noteq> author p \<and> minutes_between p c < 60")
  case True
  have "(f(author c := f (author c) @ [minutes_between p c]))
      = (\<lambda>a. f a @ (if author c = a then [minutes_between p c] else []))"
    by (auto simp: fun_eq_iff)
  then show ?thesis
    using True assms by (simp add: reply_step_def map_of_tab update_tab)
next
  case False
  then show ?thesis by (auto simp: reply_step_def)
qed

lemma fold_reply:
  assumes "distinct ks" and "\<forall>pc \<in> set xs. author (snd pc) \<in> set ks"
  shows "fold_err reply_step xs (map (\<lambda>a. (a, f a)) ks)
     = Inr (map (\<lambda>a. (a, f a @ map (\<lambda>pc. minutes_between (fst pc) (snd pc))
              (filter (\<lambda>pc. author (snd pc) = a \<and> author (snd pc) \<noteq> author (fst pc)
                 \<and> minutes_between (fst pc) (snd pc) < 60) xs))) ks)"
  using assms(2)
proof (induction xs arbitrary: f)
  case Nil
  then show ?case by simp
next
  case (Cons x xs)
  obtain p c where x: "x = (p, c)" by (cases x)
  have c: "author c \<in> set ks" using Cons.prems x by simp
  have rest: "\<forall>pc \<in> set xs. author (snd pc) \<in> set ks" using Cons.prems by simp
  show ?case
    unfolding x fold_err.simps reply_step_tab [OF assms(1) c] sum.case
    by (subst Cons.IH [OF rest]) auto
qed

lemma transitions_snd_mem: "pc \<in> set (transitions df) \<Longrightarrow> snd pc \<in> set df"
proof -
  assume "pc \<in> set (transitions df)"
  then have "(fst pc, snd pc) \<in> set (zip df (tl df))" by (simp add: transitions_def)
  then have "snd pc \<in> set (tl df)" by (rule set_zip_rightD)
  then show ?thesis by (cases df) simp_all
qed

lemma samples_index:
  "map (\<lambda>pc. minutes_between (fst pc) (snd pc))
     (filter (\<lambda>pc. author (snd pc) = a \<and> author (snd pc) \<noteq> author (fst pc)
        \<and> minutes_between (fst pc) (snd pc) < 60) (transitions df))
   = reply_samples df a"
proof -
  have "filter (\<lambda>i. author (df ! i) = a \<and> author (df ! i) \<noteq> author (df ! (i - 1))
          \<and> latency df i < 60) [1..<length df]
      = filter (\<lambda>i. author (df ! i) = a \<and> latency df i < 60) (speaker_changes df)"
    unfolding speaker_changes_def filter_filter by (rule filter_cong) auto
  then show ?thesis
    unfolding transitions_nth reply_samples_def
    by (simp add: filter_map o_def latency_def)
qed

lemma reply_times_closed:
  "reply_times df = Inr (map (\<lambda>a. (a, reply_samples df a)) (unique (map author df)))"
proof -
  have "\<forall>pc \<in> set (transitions df). author (snd pc) \<in> set (unique (map author df))"
    by (auto dest: transitions_snd_mem)
  from fold_reply [OF distinct_unique this, of "\<lambda>a. []"]
  show ?thesis
    unfolding reply_times_def by (simp add: samples_index)
qed

lemma avg_reply_closed:
  "avg_reply df
     = Inr (map (\<lambda>a. (a, sum_list (reply_samples df a) / of_nat (length (reply_samples df a))))
              (filter (\<lambda>a. 5 < length (reply_samples df a)) (unique (map author df))))"
  unfolding avg_reply_def reply_times_closed
  by (simp add: avg_reply_of_def filter_map o_def)

lemma reply_samples_author:
  "reply_samples df a \<noteq> [] \<Longrightarrow> a \<in> set (map author df)"
proof -
  assume "reply_samples df a \<noteq> []"
  then obtain i where "i \<in> set (speaker_changes df)" and "author (df ! i) = a"
    unfolding reply_samples_def by (auto simp: filter_empty_conv)
  then have "i < length df" by (simp add: speaker_changes_def)
  then have "df ! i \<in> set df" by simp
  then have "author (df ! i) \<in> author ` set df" by (rule imageI)
  then show ?thesis using \<open>author (df ! i) = a\<close> by simp
qed

text \<open>
  C7. The list \<^verbatim>\<open>avg_reply\<close> has one entry for every author with strictly more than 5
  qualifying samples (the speaker changes under 60 minutes whose current event is of that
  author), and no other; the entry is the mean of exactly these samples. The report is
  the first 15 entries of \<^verbatim>\<open>avg_reply\<close> in ascending order of the mean: an author in
  the report has more than 5 samples, and when at most 15 authors have more than 5
  samples, the authors of the report are exactly these.
\<close>

theorem reply_speed_per_author:
  "\<exists>ar. avg_reply df = Inr ar
     \<and> ar = map (\<lambda>a. (a, sum_list (reply_samples df a) / of_nat (length (reply_samples df a))))
              (filter (\<lambda>a. 5 < length (reply_samples df a)) (unique (map author df)))
     \<and> (\<forall>a. a \<in> fst ` set ar \<longleftrightarrow> 5 < length (reply_samples df a))
     \<and> reply_speed_by_author df = Inr (take 15 (sort_key snd ar))
     \<and> fst ` set (take 15 (sort_key snd ar)) \<subseteq> {a. 5 < length (reply_samples df a)}
     \<and> (length ar \<le> 15 \<longrightarrow>
          fst ` set (take 15 (sort_key snd ar)) = {a. 5 < length (reply_samples df a)})"
proof -
  let ?ar = "map (\<lambda>a. (a, sum_list (reply_samples df a) / of_nat (length (reply_samples df a))))
              (filter (\<lambda>a. 5 < length (reply_samples df a)) (unique (map author df)))"
  have ar: "avg_reply df = Inr ?ar" by (rule avg_reply_closed)
  have mem: "a \<in> fst ` set ?ar \<longleftrightarrow> 5 < length (reply_samples df a)" for a
  proof
    assume "a \<in> fst ` set ?ar"
    then show "5 < length (reply_samples df a)" by auto
  next
    assume a: "5 < length (reply_samples df a)"
    then have "reply_samples df a \<noteq> []" by auto
    then have "a \<in> set (unique (map author df))" using reply_samples_author [of df a] by simp
    then have "a \<in> set (filter (\<lambda>a. 5 < length (reply_samples df a)) (unique (map author df)))"
      using a by simp
    then show "a \<in> fst ` set ?ar" by (simp add: image_image)
  qed
  have out: "reply_speed_by_author df = Inr (take 15 (sort_key snd ?ar))"
    by (simp add: reply_speed_by_author_def ar)
  have sub: "fst ` set (take 15 (sort_key snd ?ar)) \<subseteq> {a. 5 < length (reply_samples df a)}"
  proof
    fix a assume "a \<in> fst ` set (take 15 (sort_key snd ?ar))"
    then obtain kv where "kv \<in> set (take 15 (sort_key snd ?ar))" and "a = fst kv" by auto
    then have "kv \<in> set (sort_key snd ?ar)" by (auto dest: in_set_takeD)
    then have "kv \<in> set ?ar" by (simp only: set_sort)
    then have "a \<in> fst ` set ?ar" using \<open>a = fst kv\<close> by (simp only: image_eqI)
    then show "a \<in> {a. 5 < length (reply_samples df a)}" using mem by simp
  qed
  have all: "fst ` set (take 15 (sort_key snd ?ar)) = {a. 5 < length (reply_samples df a)}"
    if "length ?ar \<le> 15"
  proof -
    have "length (sort_key snd ?ar) \<le> 15" using that by (simp only: length_sort)
    then have "take 15 (sort_key snd ?ar) = sort_key snd ?ar" by (rule take_all)
    then have "fst ` set (take 15 (sort_key snd ?ar)) = fst ` set ?ar" by (simp only: set_sort)
    then show ?thesis using mem by auto
  qed
  show ?thesis
    using ar mem out sub all by blast
qed

theorem reply_speed_per_author_witness:
  "avg_reply (map (\<lambda>(a, t). mk_event a t)
       [(''A'', 0), (''B'', 60), (''A'', 180), (''B'', 240), (''A'', 360), (''B'', 420),
        (''A'', 540), (''B'', 600), (''A'', 720), (''B'', 780), (''A'', 900), (''B'', 960)])
     = Inr [(''B'', 1)]
   \<and> reply_speed_by_author (map (\<lambda>(a, t). mk_event a t)
       [(''A'', 0), (''B'', 60), (''A'', 180), (''B'', 240), (''A'', 360), (''B'', 420),
        (''A'', 540), (''B'', 600), (''A'', 720), (''B'', 780), (''A'', 900), (''B'', 960)])
     = Inr [(''B'', 1)]
   \<and> {a. 5 < length (reply_samples (map (\<lambda>(a, t). mk_event a t)
       [(''A'', 0), (''B'', 60), (''A'', 180), (''B'', 240), (''A'', 360), (''B'', 420),
        (''A'', 540), (''B'', 600), (''A'', 720), (''B'', 780), (''A'', 900), (''B'', 960)]) a)}
     = {''B''}"
proof -
  let ?df = "map (\<lambda>(a, t). mk_event a t)
       [(''A'', 0), (''B'', 60), (''A'', 180), (''B'', 240), (''A'', 360), (''B'', 420),
        (''A'', 540), (''B'', 600), (''A'', 720), (''B'', 780), (''A'', 900), (''B'', 960)]"
  have v: "avg_reply ?df = Inr [(''B'', 1)]"
    by (simp add: avg_reply_def reply_times_def reply_step_def unique_def mk_event_def
        minutes_between_def avg_reply_of_def)
  from reply_speed_per_author [of ?df] obtain ar where
    "avg_reply ?df = Inr ar"
    and out: "reply_speed_by_author ?df = Inr (take 15 (sort_key snd ar))"
    and all: "length ar \<le> 15 \<longrightarrow>
          fst ` set (take 15 (sort_key snd ar)) = {a. 5 < length (reply_samples ?df a)}"
    by blast
  then have ar: "ar = [(''B'', 1)]" using v by simp
  have "reply_speed_by_author ?df = Inr [(''B'', 1)]" using out unfolding ar by simp
  moreover have "{a. 5 < length (reply_samples ?df a)} = {''B''}" using all unfolding ar by simp
  ultimately show ?thesis using v by simp
qed

text \<open>
  Sixteen authors who write in turn, seven times each, at the same minute: every author has
  at least 6 qualifying samples, all means are 0, and the report keeps the first 15
  entries. The sixteenth author has 7 qualifying samples and is not in the report.
\<close>

theorem reply_speed_sixteen_authors:
  "reply_times (concat (replicate 7 (map (\<lambda>a. mk_event [a] 0) ''ABCDEFGHIJKLMNOP'')))
     = Inr ((''A'', [0, 0, 0, 0, 0, 0])
            # map (\<lambda>a. ([a], [0, 0, 0, 0, 0, 0, 0])) ''BCDEFGHIJKLMNOP'')
   \<and> reply_speed_by_author (concat (replicate 7 (map (\<lambda>a. mk_event [a] 0) ''ABCDEFGHIJKLMNOP'')))
     = Inr (map (\<lambda>a. ([a], 0)) ''ABCDEFGHIJKLMNO'')
   \<and> ''P'' \<notin> fst ` set (map (\<lambda>a. ([a], 0 :: rat)) ''ABCDEFGHIJKLMNO'')"
proof -
  let ?df = "concat (replicate 7 (map (\<lambda>a. mk_event [a] 0) ''ABCDEFGHIJKLMNOP''))"
  have rt: "reply_times ?df
     = Inr ((''A'', [0, 0, 0, 0, 0, 0])
            # map (\<lambda>a. ([a], [0, 0, 0, 0, 0, 0, 0])) ''BCDEFGHIJKLMNOP'')"
    by (simp add: reply_times_def reply_step_def unique_def mk_event_def minutes_between_def
        numeral_nat)
  have "reply_speed_by_author ?df = Inr (map (\<lambda>a. ([a], 0)) ''ABCDEFGHIJKLMNO'')"
    unfolding reply_speed_by_author_def avg_reply_def rt
    by (simp add: avg_reply_of_def)
  moreover have "''P'' \<notin> fst ` set (map (\<lambda>a. ([a], 0 :: rat)) ''ABCDEFGHIJKLMNO'')"
    by simp
  ultimately show ?thesis using rt by simp
qed

section \<open>Sequences of at most one event\<close>




section \<open>Matching the pattern\<close>

lemma first_some_map:
  "first_some (map f ks) = Some y \<Longrightarrow> \<exists>k \<in> set ks. f k = Some y"
proof (induction ks)
  case Nil
  then show ?case by simp
next
  case (Cons k ks)
  then show ?case by (cases "f k") auto
qed

lemma re_match_plus_mem:
  assumes "re_match (Plus c # p) s gs cur = Some r"
  shows "\<exists>k \<in> set (rev [1..<Suc (length (takeWhile (accepts c) s))]).
           re_match p (drop k s) gs (map_option (\<lambda>g. g @ take k s) cur) = Some r"
proof -
  from assms have "first_some
       (map (\<lambda>k. re_match p (drop k s) gs (map_option (\<lambda>g. g @ take k s) cur))
          (rev [1..<Suc (length (takeWhile (accepts c) s))])) = Some r"
    by simp
  then show ?thesis by (rule first_some_map)
qed

lemma re_match_plus:
  assumes "re_match (Plus c # p) s gs cur = Some r"
  shows "\<exists>k. 1 \<le> k \<and> k \<le> length (takeWhile (accepts c) s)
           \<and> re_match p (drop k s) gs (map_option (\<lambda>g. g @ take k s) cur) = Some r"
proof -
  from re_match_plus_mem [OF assms] obtain k where
    "k \<in> set (rev [1..<Suc (length (takeWhile (accepts c) s))])"
    and m: "re_match p (drop k s) gs (map_option (\<lambda>g. g @ take k s) cur) = Some r"
    by blast
  then have "1 \<le> k \<and> k \<le> length (takeWhile (accepts c) s)" by auto
  then show ?thesis using m by blast
qed

lemma re_match_groups:
  "re_match p s gs cur = Some r \<Longrightarrow>
     (\<exists>v. r = gs @ v) \<and> length r = length gs + count_list p Group_Close"
proof (induction p s gs cur rule: re_match.induct)
  case (1 s gs cur)
  then show ?case by simp
next
  case (2 p s gs cur)
  then show ?case by simp
next
  case (3 p s gs cur)
  then show ?case by auto
next
  case (4 c p s gs cur)
  then show ?case by (cases s) (auto split: if_splits)
next
  case (5 c p s gs cur)
  from re_match_plus_mem [OF "5.prems"] obtain k where
    k: "k \<in> set (rev [1..<Suc (length (takeWhile (accepts c) s))])"
    and m: "re_match p (drop k s) gs (map_option (\<lambda>g. g @ take k s) cur) = Some r"
    by blast
  from "5.IH" [OF k m] show ?case by simp
qed

lemma re_match_append:
  "re_match (p @ q) s gs cur = Some r \<Longrightarrow>
     \<exists>u s' gs' cur'. s = u @ s' \<and> length gs' = length gs + count_list p Group_Close
        \<and> re_match q s' gs' cur' = Some r"
proof (induction p s gs cur rule: re_match.induct)
  case (1 s gs cur)
  then have "s = [] @ s \<and> length gs = length gs + count_list [] Group_Close
      \<and> re_match q s gs cur = Some r" by simp
  then show ?case by blast
next
  case (2 p s gs cur)
  then show ?case by simp
next
  case (3 p s gs cur)
  then have "re_match (p @ q) s (gs @ [case cur of None \<Rightarrow> [] | Some g \<Rightarrow> g]) None = Some r"
    by simp
  from "3.IH" [OF this] show ?case by auto
next
  case (4 c p s gs cur)
  then obtain x xs where s: "s = x # xs" and a: "accepts c x"
    and m: "re_match (p @ q) xs gs (map_option (\<lambda>g. g @ [x]) cur) = Some r"
    by (cases s) (auto split: if_splits)
  from "4.IH" [OF s a m] obtain u s' gs' cur' where
    "xs = u @ s'" "length gs' = length gs + count_list p Group_Close"
    "re_match q s' gs' cur' = Some r" by auto
  then have "s = (x # u) @ s' \<and> length gs' = length gs + count_list (One c # p) Group_Close
      \<and> re_match q s' gs' cur' = Some r" using s by simp
  then show ?case by blast
next
  case (5 c p s gs cur)
  have "re_match (Plus c # (p @ q)) s gs cur = Some r" using "5.prems" by simp
  from re_match_plus_mem [OF this] obtain k where
    k: "k \<in> set (rev [1..<Suc (length (takeWhile (accepts c) s))])"
    and m: "re_match (p @ q) (drop k s) gs (map_option (\<lambda>g. g @ take k s) cur) = Some r"
    by blast
  from "5.IH" [OF k m] obtain u s' gs' cur' where
    d: "drop k s = u @ s'" and "length gs' = length gs + count_list p Group_Close"
    and "re_match q s' gs' cur' = Some r" by auto
  moreover have "s = take k s @ drop k s" by simp
  then have "s = (take k s @ u) @ s'" using d by simp
  ultimately have "s = (take k s @ u) @ s'
      \<and> length gs' = length gs + count_list (Plus c # p) Group_Close
      \<and> re_match q s' gs' cur' = Some r" by simp
  then show ?case by blast
qed

lemma re_match_last_plus:
  "re_match [Group_Open, Plus c, Group_Close] s gs cur
     = (if takeWhile (accepts c) s = [] then None else Some (gs @ [takeWhile (accepts c) s]))"
proof (cases "takeWhile (accepts c) s = []")
  case True
  then show ?thesis by simp
next
  case False
  then obtain n where n: "length (takeWhile (accepts c) s) = Suc n"
    by (cases "length (takeWhile (accepts c) s)") auto
  have "take (Suc n) s = takeWhile (accepts c) s"
    using n by (metis takeWhile_eq_take)
  then show ?thesis using False n by simp
qed

lemma pattern_closes: "count_list pattern Group_Close = 4"
  by (simp add: pattern_def)

lemma pattern_split_message:
  "pattern = take 29 pattern @ [Group_Open, Plus Dot, Group_Close]"
  by (simp add: pattern_def)

lemma pattern_split_author:
  "pattern = take 24 pattern @ (Group_Open # Plus (Not_Lit CHR '':'') # Group_Close # drop 27 pattern)"
  by (simp add: pattern_def)

lemma pattern_closes_24: "count_list (take 24 pattern) Group_Close = 2"
  by (simp add: pattern_def)

lemma pattern_closes_29: "count_list (take 29 pattern) Group_Close = 3"
  by (simp add: pattern_def)

lemma take_takeWhile_set:
  assumes "k \<le> length (takeWhile P s)" and "x \<in> set (take k s)"
  shows "P x"
proof -
  have "take k s = take k (takeWhile P s)"
    using assms(1) by (metis takeWhile_eq_take take_take min.absorb1)
  then have "x \<in> set (takeWhile P s)" using assms(2) by (auto dest: in_set_takeD)
  then show ?thesis by (rule set_takeWhileD [THEN conjunct2])
qed

lemma pattern_groups:
  assumes "re_match pattern s [] None = Some r"
  shows "\<exists>d t a u s'. r = [d, t, a, takeWhile (accepts Dot) s'] \<and> CHR '':'' \<notin> set a
           \<and> s = u @ s' \<and> takeWhile (accepts Dot) s' \<noteq> []"
proof -
  have len: "length r = 4"
    using re_match_groups [OF assms] by (simp add: pattern_closes)
  have "re_match (take 29 pattern @ [Group_Open, Plus Dot, Group_Close]) s [] None = Some r"
    using assms pattern_split_message by simp
  from re_match_append [OF this, unfolded pattern_closes_29] obtain u s' gs' cur' where
    s: "s = u @ s'" and l3: "length gs' = length ([] :: string list) + 3"
    and m: "re_match [Group_Open, Plus Dot, Group_Close] s' gs' cur' = Some r"
    by blast
  from m [unfolded re_match_last_plus] have ne: "takeWhile (accepts Dot) s' \<noteq> []"
    and r: "r = gs' @ [takeWhile (accepts Dot) s']"
    by (auto split: if_splits)
  have "re_match (take 24 pattern
      @ (Group_Open # Plus (Not_Lit CHR '':'') # Group_Close # drop 27 pattern)) s [] None = Some r"
    using assms pattern_split_author by simp
  from re_match_append [OF this, unfolded pattern_closes_24] obtain u2 s2 gs2 cur2 where
    l2: "length gs2 = length ([] :: string list) + 2"
    and m2: "re_match (Group_Open # Plus (Not_Lit CHR '':'') # Group_Close # drop 27 pattern)
           s2 gs2 cur2 = Some r"
    by blast
  from m2 have "re_match (Plus (Not_Lit CHR '':'') # Group_Close # drop 27 pattern)
           s2 gs2 (Some []) = Some r" by (simp only: re_match.simps)
  from re_match_plus [OF this] obtain k where
    k: "k \<le> length (takeWhile (accepts (Not_Lit CHR '':'')) s2)"
    and m3: "re_match (Group_Close # drop 27 pattern) (drop k s2) gs2
               (map_option (\<lambda>g. g @ take k s2) (Some [])) = Some r"
    by blast
  from m3 have "re_match (drop 27 pattern) (drop k s2) (gs2 @ [take k s2]) None = Some r"
    by (simp only: re_match.simps option.map option.case append_Nil)
  from re_match_groups [OF this] obtain v where v: "r = (gs2 @ [take k s2]) @ v" by blast
  have a: "CHR '':'' \<notin> set (take k s2)"
    using take_takeWhile_set [OF k, of "CHR '':''"] by auto
  obtain d t where gs2: "gs2 = [d, t]"
    using l2 by (auto simp: length_Suc_conv numeral_2_eq_2)
  have "length v = 1" using len v gs2 by simp
  then obtain m' where v1: "v = [m']" by (auto simp: length_Suc_conv)
  have "gs' = [d, t, take k s2]"
    using r v gs2 v1 by simp
  then have "r = [d, t, take k s2, takeWhile (accepts Dot) s']" using r by simp
  then show ?thesis using a s ne by blast
qed

lemma set_strip: "set (strip s) \<subseteq> set s"
  unfolding strip_def by (auto dest!: set_dropWhileD)

lemma strip_last: "strip s \<noteq> [] \<Longrightarrow> \<not> isspace (last (strip s))"
proof -
  assume ne: "strip s \<noteq> []"
  let ?ys = "dropWhile isspace (rev (dropWhile isspace s))"
  have "?ys \<noteq> []" using ne by (simp add: strip_def)
  then have "\<not> isspace (hd ?ys)" by (rule hd_dropWhile)
  moreover have "last (strip s) = hd ?ys"
    using \<open>?ys \<noteq> []\<close> by (simp add: strip_def last_rev)
  ultimately show ?thesis by simp
qed

lemma dropWhile_keeps:
  assumes "x \<in> set s" and "\<not> P x"
  shows "x \<in> set (dropWhile P s)"
proof -
  have "set s = set (takeWhile P s) \<union> set (dropWhile P s)"
    by (metis set_append takeWhile_dropWhile_id)
  moreover have "x \<notin> set (takeWhile P s)" using assms(2) by (auto dest: set_takeWhileD)
  ultimately show ?thesis using assms(1) by auto
qed

lemma strip_nonempty:
  assumes "x \<in> set s" and "\<not> isspace x"
  shows "strip s \<noteq> []"
proof -
  have "x \<in> set (rev (dropWhile isspace s))"
    using dropWhile_keeps [where P = isspace, OF assms] by simp
  then have "x \<in> set (dropWhile isspace (rev (dropWhile isspace s)))"
    using assms(2) by (rule dropWhile_keeps)
  then have "dropWhile isspace (rev (dropWhile isspace s)) \<noteq> []"
    by (auto simp del: dropWhile_eq_Nil_conv)
  then show ?thesis by (simp only: strip_def rev_is_Nil_conv not_False_eq_True)
qed

lemma dropWhile_id: "xs \<noteq> [] \<Longrightarrow> \<not> P (hd xs) \<Longrightarrow> dropWhile P xs = xs"
  by (cases xs) simp_all

lemma strip_idem: "strip (strip s) = strip s"
proof (cases "strip s = []")
  case True
  show ?thesis unfolding True by (simp add: strip_def)
next
  case False
  let ?d = "dropWhile isspace s"
  let ?e = "dropWhile isspace (rev ?d)"
  have e: "?e \<noteq> []" using False by (simp only: strip_def rev_is_Nil_conv not_False_eq_True)
  then have he: "\<not> isspace (hd ?e)" by (rule hd_dropWhile)
  have d: "?d \<noteq> []"
  proof
    assume a: "?d = []"
    have "?e = []" unfolding a by simp
    with e show False by simp
  qed
  then have hd: "\<not> isspace (hd ?d)" by (rule hd_dropWhile)
  have "last (rev ?d) = hd ?d" using d by (simp only: last_rev)
  moreover have "last ?e = last (rev ?d)"
    using e by (metis last_appendR takeWhile_dropWhile_id)
  ultimately have le: "\<not> isspace (last ?e)" using hd by simp
  have re: "rev ?e \<noteq> []" using e by (simp only: rev_is_Nil_conv not_False_eq_True)
  have "hd (rev ?e) = last ?e" using e by (simp only: hd_rev)
  then have hre: "\<not> isspace (hd (rev ?e))" using le by simp
  have 1: "dropWhile isspace (rev ?e) = rev ?e"
    using re hre by (rule dropWhile_id)
  have 2: "dropWhile isspace ?e = ?e"
    using e he by (rule dropWhile_id)
  show ?thesis
    unfolding strip_def [of "strip s"] unfolding strip_def [of s] 1 rev_rev_ident 2 ..
qed

lemma strip_snoc_space:
  assumes "isspace c"
  shows "strip (u @ [c]) = strip u"
proof (cases "\<forall>x \<in> set u. isspace x")
  case True
  have "\<forall>x \<in> set (u @ [c]). isspace x" using True assms by simp
  then have a: "dropWhile isspace (u @ [c]) = []" by (simp only: dropWhile_eq_Nil_conv)
  have b: "dropWhile isspace u = []" using True by (simp only: dropWhile_eq_Nil_conv)
  show ?thesis unfolding strip_def a b ..
next
  case False
  then obtain x where "x \<in> set u" "\<not> isspace x" by blast
  then have "dropWhile isspace (u @ [c]) = dropWhile isspace u @ [c]"
    by (rule dropWhile_append1)
  then show ?thesis using assms by (simp add: strip_def)
qed

lemma split_lines_inner:
  "l \<in> set (split_lines acc cs) \<Longrightarrow> CHR 0x0A \<notin> set acc \<Longrightarrow>
     \<exists>u. CHR 0x0A \<notin> set u \<and> (l = u \<or> l = u @ [CHR 0x0A])"
proof (induction cs arbitrary: acc)
  case Nil
  then show ?case by (auto split: if_splits)
next
  case (Cons c cs)
  show ?case
  proof (cases "c = CHR 0x0A")
    case True
    then have "l = acc @ [CHR 0x0A] \<or> l \<in> set (split_lines [] cs)"
      using Cons.prems(1) by simp
    then show ?thesis
    proof
      assume "l = acc @ [CHR 0x0A]"
      then show ?thesis using Cons.prems(2) by blast
    next
      assume "l \<in> set (split_lines [] cs)"
      then show ?thesis by (rule Cons.IH) simp
    qed
  next
    case False
    then have "l \<in> set (split_lines (acc @ [c]) cs)" using Cons.prems(1) by simp
    moreover have "CHR 0x0A \<notin> set (acc @ [c])" using False Cons.prems(2) by simp
    ultimately show ?thesis by (rule Cons.IH)
  qed
qed

lemma isspace_newline: "isspace (CHR 0x0A)"
  by (simp add: isspace_def whitespace_chars_def)

lemma file_lines_strip:
  assumes "l \<in> set (file_lines content)"
  shows "CHR 0x0A \<notin> set (strip l)"
proof -
  from assms have "l \<in> set (split_lines [] (universal_newlines content))"
    by (simp add: file_lines_def)
  from split_lines_inner [OF this] obtain u where
    u: "CHR 0x0A \<notin> set u" and l: "l = u \<or> l = u @ [CHR 0x0A]" by auto
  have "strip l = strip u"
    using l strip_snoc_space [OF isspace_newline, of u] by auto
  then show ?thesis using u set_strip [of u] by auto
qed

lemma parse_line_cases:
  "parse_line line = Inr None \<and> re_match pattern (strip line) [] None = None
   \<or> (\<exists>d t a u s'. re_match pattern (strip line) [] None = Some [d, t, a, takeWhile (accepts Dot) s']
         \<and> parse_line line = Inr (Some \<lparr>date = d, time = t, author = strip a,
              message = strip (takeWhile (accepts Dot) s')\<rparr>)
         \<and> CHR '':'' \<notin> set a \<and> strip line = u @ s' \<and> takeWhile (accepts Dot) s' \<noteq> [])"
proof (cases "re_match pattern (strip line) [] None")
  case None
  then show ?thesis by (simp add: parse_line_def)
next
  case (Some r)
  from pattern_groups [OF this] obtain d t a u s' where
    r: "r = [d, t, a, takeWhile (accepts Dot) s']" and a: "CHR '':'' \<notin> set a"
    and s: "strip line = u @ s'" and ne: "takeWhile (accepts Dot) s' \<noteq> []"
    by blast
  have "parse_line line = Inr (Some \<lparr>date = d, time = t, author = strip a,
              message = strip (takeWhile (accepts Dot) s')\<rparr>)"
    by (simp add: parse_line_def Some r)
  then show ?thesis using Some r a s ne by blast
qed

lemma parse_line_total: "\<exists>ro. parse_line line = Inr ro"
  using parse_line_cases [of line] by auto

lemma parse_line_author:
  assumes "parse_line line = Inr (Some r)"
  shows "CHR '':'' \<notin> set (author r)"
proof -
  from parse_line_cases [of line] assms obtain a where
    "author r = strip a" and "CHR '':'' \<notin> set a" by auto
  then show ?thesis using set_strip [of a] by auto
qed

lemma parse_line_message:
  assumes "parse_line line = Inr (Some r)" and nl: "CHR 0x0A \<notin> set (strip line)"
  shows "message r \<noteq> [] \<and> strip (message r) = message r"
proof -
  from parse_line_cases [of line] assms(1) obtain u s' where
    m: "message r = strip (takeWhile (accepts Dot) s')"
    and s: "strip line = u @ s'" and ne: "takeWhile (accepts Dot) s' \<noteq> []" by auto
  have "\<forall>x \<in> set s'. accepts Dot x" using nl s by auto
  then have all: "takeWhile (accepts Dot) s' = s'" by (simp add: takeWhile_eq_all_conv)
  have s': "s' \<noteq> []"
  proof
    assume "s' = []"
    then have "takeWhile (accepts Dot) s' = []" by simp
    with ne show False by simp
  qed
  then have sl: "strip line \<noteq> []" using s by simp
  have "last s' = last (strip line)" using s s' by simp
  then have "\<not> isspace (last s')" using strip_last [OF sl] by simp
  moreover have "last s' \<in> set s'" using s' by simp
  ultimately have "strip s' \<noteq> []" by (rule strip_nonempty [rotated])
  then show ?thesis using m all by (simp add: strip_idem)
qed

lemma parse_lines_closed:
  "parse_lines ls
     = Inr (concat (map (\<lambda>l. case parse_line l of Inr (Some r) \<Rightarrow> [r] | _ \<Rightarrow> []) ls))"
proof (induction ls)
  case Nil
  then show ?case by simp
next
  case (Cons l ls)
  obtain ro where "parse_line l = Inr ro" using parse_line_total by blast
  then show ?case using Cons by (cases ro) simp_all
qed

lemma parse_lines_rows:
  assumes "parse_lines ls = Inr rows" and "r \<in> set rows"
  shows "\<exists>l \<in> set ls. parse_line l = Inr (Some r)"
proof -
  from assms have "r \<in> set (concat (map (\<lambda>l. case parse_line l of Inr (Some r) \<Rightarrow> [r] | _ \<Rightarrow> []) ls))"
    by (simp add: parse_lines_closed)
  then obtain l where l: "l \<in> set ls"
    and r: "r \<in> set (case parse_line l of Inr (Some r) \<Rightarrow> [r] | _ \<Rightarrow> [])" by auto
  obtain ro where ro: "parse_line l = Inr ro" using parse_line_total by blast
  then have "parse_line l = Inr (Some r)" using r by (cases ro) simp_all
  then show ?thesis using l by blast
qed

lemma to_events_rows:
  "to_events rs = Inr es \<Longrightarrow> map author es = map author rs \<and> map message es = map message rs
     \<and> map date es = map date rs \<and> map time es = map time rs"
proof (induction rs arbitrary: es)
  case Nil
  then show ?case by simp
next
  case (Cons r rs)
  then show ?case by (auto split: sum.splits)
qed

section \<open>Parsing: the loop and the batch\<close>

text \<open>
  C8. The body of the loop of \<^verbatim>\<open>parse_chat\<close> reads nothing but the line, so its result
  is a function of the line, and it never raises: \<^verbatim>\<open>match.groups()\<close> always has four
  elements. The loop over any list of lines ends with one row for every line that matches
  and none for the others. But a line that matches the pattern with a date that is not in
  the calendar, like \<^verbatim>\<open>01/13/2024, 10:00 - A: hi\<close> (month 13), gives a row in the loop and
  then an error of \<^verbatim>\<open>pd.to_datetime\<close> that ends \<^verbatim>\<open>parse_chat\<close>: no event comes
  out, neither for this line nor for the valid line before it. A file with no matching
  line ends \<^verbatim>\<open>parse_chat\<close> with \<^verbatim>\<open>KeyError\<close>.
\<close>

theorem matching_line_aborts_batch:
  "(\<exists>ro. parse_line line = Inr ro)
   \<and> parse_lines ls
       = Inr (concat (map (\<lambda>l. case parse_line l of Inr (Some r) \<Rightarrow> [r] | _ \<Rightarrow> []) ls))
   \<and> parse_line ''01/13/2024, 10:00 - A: hi''
       = Inr (Some \<lparr>date = ''01/13/2024'', time = ''10:00'', author = ''A'', message = ''hi''\<rparr>)
   \<and> parse_chat (''02/01/1970, 10:05 - A: hi'' @ [CHR 0x0A])
       = Inr [\<lparr>date = ''02/01/1970'', time = ''10:05'', author = ''A'', message = ''hi'',
               datetime = 122700\<rparr>]
   \<and> parse_chat (''02/01/1970, 10:05 - A: hi'' @ [CHR 0x0A] @ ''01/13/2024, 10:00 - A: hi''
         @ [CHR 0x0A]) = Inl ValueError
   \<and> parse_chat (''hello'' @ [CHR 0x0A]) = Inl KeyError"
proof (intro conjI)
  show "\<exists>ro. parse_line line = Inr ro" by (rule parse_line_total)
  show "parse_lines ls
       = Inr (concat (map (\<lambda>l. case parse_line l of Inr (Some r) \<Rightarrow> [r] | _ \<Rightarrow> []) ls))"
    by (rule parse_lines_closed)
  show "parse_line ''01/13/2024, 10:00 - A: hi''
       = Inr (Some \<lparr>date = ''01/13/2024'', time = ''10:00'', author = ''A'', message = ''hi''\<rparr>)"
    by (simp add: parse_line_def pattern_def strip_def isspace_def isdigit_def
        whitespace_chars_def)
  show "parse_chat (''02/01/1970, 10:05 - A: hi'' @ [CHR 0x0A])
       = Inr [\<lparr>date = ''02/01/1970'', time = ''10:05'', author = ''A'', message = ''hi'',
               datetime = 122700\<rparr>]"
    by (simp add: parse_chat_def file_lines_def parse_line_def pattern_def strip_def isspace_def
        isdigit_def whitespace_chars_def to_datetime_def int_of_digits_def digit_val_def
        days_in_month_def days_from_civil_def is_leap_def Let_def)
  show "parse_chat (''02/01/1970, 10:05 - A: hi'' @ [CHR 0x0A] @ ''01/13/2024, 10:00 - A: hi''
         @ [CHR 0x0A]) = Inl ValueError"
    by (simp add: parse_chat_def file_lines_def parse_line_def pattern_def strip_def isspace_def
        isdigit_def whitespace_chars_def to_datetime_def int_of_digits_def digit_val_def
        days_in_month_def days_from_civil_def is_leap_def Let_def)
  show "parse_chat (''hello'' @ [CHR 0x0A]) = Inl KeyError"
    by (simp add: parse_chat_def file_lines_def parse_line_def pattern_def strip_def isspace_def
        isdigit_def whitespace_chars_def)
qed

text \<open>
  C10. A row that the loop of \<^verbatim>\<open>parse_chat\<close> appends has an author without \<open>:\<close>, and
  when the stripped line has no line break inside, a message that is not empty and is
  its own \<^verbatim>\<open>strip()\<close>. The lines of a file have no line break inside, so every row of
  \<^verbatim>\<open>data\<close> and every event of the frame has a message that is not empty after
  trimming and an author without \<open>:\<close>.
\<close>

theorem parsed_event_fields:
  "(parse_line line = Inr (Some r) \<longrightarrow>
        CHR '':'' \<notin> set (author r)
        \<and> (CHR 0x0A \<notin> set (strip line) \<longrightarrow> message r \<noteq> [] \<and> strip (message r) = message r))
   \<and> (parse_lines (file_lines content) = Inr rows \<longrightarrow>
        (\<forall>r \<in> set rows. message r \<noteq> [] \<and> strip (message r) = message r
            \<and> CHR '':'' \<notin> set (author r)))
   \<and> (parse_chat content = Inr evs \<longrightarrow>
        (\<forall>e \<in> set evs. message e \<noteq> [] \<and> strip (message e) = message e
            \<and> CHR '':'' \<notin> set (author e)))"
proof (intro conjI impI ballI)
  assume "parse_line line = Inr (Some r)"
  then show "CHR '':'' \<notin> set (author r)" by (rule parse_line_author)
next
  assume "parse_line line = Inr (Some r)" and "CHR 0x0A \<notin> set (strip line)"
  then have "message r \<noteq> [] \<and> strip (message r) = message r" by (rule parse_line_message)
  then show "message r \<noteq> []" and "strip (message r) = message r" by simp_all
next
  fix x assume rows: "parse_lines (file_lines content) = Inr rows" and x: "x \<in> set rows"
  from parse_lines_rows [OF rows x] obtain l where l: "l \<in> set (file_lines content)"
    and p: "parse_line l = Inr (Some x)" by blast
  have m: "message x \<noteq> [] \<and> strip (message x) = message x"
    using p file_lines_strip [OF l] by (rule parse_line_message)
  show "message x \<noteq> []" using m by simp
  show "strip (message x) = message x" using m by simp
  show "CHR '':'' \<notin> set (author x)" using p by (rule parse_line_author)
next
  fix e assume evs: "parse_chat content = Inr evs" and e: "e \<in> set evs"
  from evs obtain data where data: "parse_lines (file_lines content) = Inr data"
    and te: "to_events data = Inr evs"
    by (auto simp: parse_chat_def split: sum.splits if_splits)
  from e obtain i where i: "i < length evs" and ei: "evs ! i = e"
    by (auto simp: in_set_conv_nth)
  from to_events_rows [OF te] have ma: "map author evs = map author data"
    and mm: "map message evs = map message data" by simp_all
  have len: "length data = length evs" using ma by (metis length_map)
  have a: "author e = author (data ! i)"
    using ma i ei len by (metis nth_map)
  have m: "message e = message (data ! i)"
    using mm i ei len by (metis nth_map)
  have "data ! i \<in> set data" using i len by simp
  from parse_lines_rows [OF data this] obtain l where l: "l \<in> set (file_lines content)"
    and p: "parse_line l = Inr (Some (data ! i))" by blast
  have pm: "message (data ! i) \<noteq> [] \<and> strip (message (data ! i)) = message (data ! i)"
    using p file_lines_strip [OF l] by (rule parse_line_message)
  show "message e \<noteq> []" using pm m by simp
  show "strip (message e) = message e" using pm m by simp
  show "CHR '':'' \<notin> set (author e)" using parse_line_author [OF p] a by simp
qed


theorem parsed_event_fields_witness:
  "parse_line ''01/12/2024, 10:00 - Dr: Who: hello  ''
     = Inr (Some \<lparr>date = ''01/12/2024'', time = ''10:00'', author = ''Dr'',
              message = ''Who: hello''\<rparr>)
   \<and> parse_chat (''01/12/2024, 10:00 - Dr: Who: hello  '' @ [CHR 0x0A] @ ''noise'' @ [CHR 0x0A])
     = Inr [\<lparr>date = ''01/12/2024'', time = ''10:00'', author = ''Dr'', message = ''Who: hello'',
             datetime = 1733047200\<rparr>]
   \<and> strip ''Who: hello'' = ''Who: hello''
   \<and> CHR '':'' \<notin> set ''Dr''"
proof -
  let ?l = "''01/12/2024, 10:00 - Dr: Who: hello  ''"
  let ?r = "\<lparr>date = ''01/12/2024'', time = ''10:00'', author = ''Dr'', message = ''Who: hello''\<rparr>"
  let ?c = "''01/12/2024, 10:00 - Dr: Who: hello  '' @ [CHR 0x0A] @ ''noise'' @ [CHR 0x0A]"
  let ?e = "\<lparr>date = ''01/12/2024'', time = ''10:00'', author = ''Dr'', message = ''Who: hello'',
             datetime = 1733047200\<rparr>"
  have pl: "parse_line ?l = Inr (Some ?r)"
    by (simp add: parse_line_def pattern_def strip_def isspace_def isdigit_def
        whitespace_chars_def)
  have pc: "parse_chat ?c = Inr [?e]"
    by (simp add: parse_chat_def file_lines_def parse_line_def pattern_def strip_def isspace_def
        isdigit_def whitespace_chars_def to_datetime_def int_of_digits_def digit_val_def
        days_in_month_def days_from_civil_def is_leap_def Let_def)
  have nl: "CHR 0x0A \<notin> set (strip ?l)"
    by (simp add: strip_def isspace_def whitespace_chars_def)
  note T = parsed_event_fields [where line = ?l and r = ?r and content = ?c and rows = "[?r]"
      and evs = "[?e]"]
  have "CHR '':'' \<notin> set (author ?r)"
    using T [THEN conjunct1, rule_format, OF pl, THEN conjunct1] .
  moreover have "strip (message ?r) = message ?r"
    using T [THEN conjunct1, rule_format, OF pl, THEN conjunct2, rule_format, OF nl] by simp
  moreover have "\<forall>e \<in> set [?e]. message e \<noteq> [] \<and> strip (message e) = message e
      \<and> CHR '':'' \<notin> set (author e)"
    using T [THEN conjunct2, THEN conjunct2, rule_format, OF pc] by blast
  ultimately show ?thesis using pl pc by simp
qed

end
